theory Spec2Isabelle
  imports Main "HOL-Library.Word" "HOL-Library.Multiset"
begin

unbundle bit_operations_syntax

section \<open>The frontier subsystem (src/unnamed/part_000)\<close>

subsection \<open>Bitmaps\<close>

text \<open>
  A bitmap is an array of 32-bit words (the build kernel asserts
  \<^verbatim>\<open>BITMAP_BITS_PER_WORD == WARP_WIDTH\<close>, and \<^verbatim>\<open>WARP_WIDTH\<close> is 32). A \<^verbatim>\<open>bitmap_t\<close> is
  a pointer: a key of the store \<open>heap_t\<close> that holds the words. The two bitmap fields of
  the frontier state are such pointers, since \<^verbatim>\<open>frontier_update_bitmap\<close> exchanges them.
\<close>

type_synonym bitmap_word_t = "32 word"
type_synonym bitmap_t = nat
type_synonym heap_t = "bitmap_t \<Rightarrow> bitmap_word_t list"

text \<open>Modelled from the spec: \<^verbatim>\<open>bitmap_bits_to_words\<close> is not among the listed sources. A
  bitmap of \<open>len\<close> bits (spec, section 3) takes the least number of 32-bit words that
  hold \<open>len\<close> bits.\<close>

definition bitmap_bits_to_words :: "nat \<Rightarrow> nat" where
  "bitmap_bits_to_words len = (len + 31) div 32"

text \<open>Modelled from the spec: \<^verbatim>\<open>bitmap_is_set(word, lane)\<close> and the device intrinsic
  \<^verbatim>\<open>__popc(word)\<close> are not among the listed sources; they are the test and
  population-count primitives of the spec (section 1).\<close>

definition bitmap_is_set :: "bitmap_word_t \<Rightarrow> nat \<Rightarrow> bool" where
  "bitmap_is_set word lane = bit word lane"

definition popc :: "bitmap_word_t \<Rightarrow> nat" where
  "popc word = length (filter (bitmap_is_set word) [0..<32])"

text \<open>Bit \<open>v\<close> of a bitmap: bit \<open>v mod 32\<close> of word \<open>v div 32\<close>, as the build kernel reads
  it (\<^verbatim>\<open>widx = v >> 5\<close>, \<^verbatim>\<open>lane = idx & 31\<close>).\<close>

definition bitmap_bit :: "bitmap_word_t list \<Rightarrow> nat \<Rightarrow> bool" where
  "bitmap_bit bitmap v = bitmap_is_set (bitmap ! (v div 32)) (v mod 32)"

text \<open>The vertex ids whose bit is set, in ascending order, and a bitmap that is well
  formed for \<open>len\<close> bits: it has the words of \<open>len\<close> bits and no bit set from \<open>len\<close> on.\<close>

definition bitmap_members :: "bitmap_word_t list \<Rightarrow> nat \<Rightarrow> nat list" where
  "bitmap_members bitmap len = filter (bitmap_bit bitmap) [0..<len]"

definition bitmap_wf :: "bitmap_word_t list \<Rightarrow> nat \<Rightarrow> bool" where
  "bitmap_wf bitmap len \<longleftrightarrow>
     length bitmap = bitmap_bits_to_words len \<and>
     filter (bitmap_bit bitmap) [len..<32 * bitmap_bits_to_words len] = []"

text \<open>
  Modelled from the spec: \<^verbatim>\<open>bitmap_diff_copy_cpu\<close> and \<^verbatim>\<open>bitmap_diff_copy_gpu\<close> are not
  among the listed sources. The call is
  \<^verbatim>\<open>bitmap_diff_copy(visited, state->current, state->visited_last, len)\<close>, made after the
  exchange of the two pointers. By the spec (section 4.3) the new frontier is
  \<open>visited AND NOT\<close> the prior snapshot, the vertices newly visited since then. The prior
  snapshot is what the buffer now called \<open>current\<close> holds, so that buffer (\<open>diff\<close>) is
  overwritten in place by the difference, and the other buffer (\<open>copy\<close>) receives the
  copy of \<open>visited\<close> that is the prior snapshot of the next call. The words are processed
  one by one through the store, so that the effect of aliased arguments is the code's.
\<close>

definition bitmap_diff_copy_word ::
  "bitmap_t \<Rightarrow> bitmap_t \<Rightarrow> bitmap_t \<Rightarrow> nat \<Rightarrow> heap_t \<Rightarrow> heap_t" where
  "bitmap_diff_copy_word cur diff copy w h =
     (let word = h cur ! w;
          h1 = h(diff := (h diff)[w := word AND NOT (h diff ! w)])
      in h1(copy := (h1 copy)[w := word]))"

definition bitmap_diff_copy ::
  "bitmap_t \<Rightarrow> bitmap_t \<Rightarrow> bitmap_t \<Rightarrow> nat \<Rightarrow> heap_t \<Rightarrow> heap_t" where
  "bitmap_diff_copy cur diff copy len h =
     fold (bitmap_diff_copy_word cur diff copy) [0..<bitmap_bits_to_words len] h"

subsection \<open>The frontier state\<close>

text \<open>
  \<^verbatim>\<open>frontier_state_t\<close>. \<open>current\<close> and \<open>visited_last\<close> are pointers into the bitmap
  store. The pointers \<^verbatim>\<open>list\<close>, \<^verbatim>\<open>count\<close> and \<^verbatim>\<open>boundaries\<close> are set once by
  \<^verbatim>\<open>frontier_init_gpu\<close> and never exchanged, so the record holds what they point to
  (\<open>list_v\<close> is the array at \<^verbatim>\<open>list\<close>, \<open>count_v\<close> the counter at \<^verbatim>\<open>count\<close>); a kernel,
  which gets the state by value and writes through these pointers, returns the record
  with the new contents.
\<close>

record frontier_state_t =
  len :: nat
  current :: bitmap_t
  visited_last :: bitmap_t
  list_v :: "nat list"
  list_len :: nat
  count_v :: nat
  boundaries :: "nat list"

text \<open>Modelled from the spec: \<^verbatim>\<open>FRONTIER_BOUNDARY_COUNT\<close> is not among the listed sources.
  The spec (section 4.3) has seven buckets, the array has \<^verbatim>\<open>FRONTIER_BOUNDARY_COUNT + 1\<close>
  entries, and the update kernel writes its entries 1 to 6.\<close>

definition FRONTIER_BOUNDARY_COUNT :: nat where
  "FRONTIER_BOUNDARY_COUNT = 6"

text \<open>
  \<^verbatim>\<open>frontier_init_gpu(state, vertex_count)\<close>, with \<open>n\<close> for \<^verbatim>\<open>vertex_count\<close>.
  \<^verbatim>\<open>bitmap_init_gpu\<close> gives a fresh zeroed bitmap: the two fresh pointers are the
  parameters \<open>a\<close> and \<open>b\<close>. \<open>max_frontier_len\<close> is
  \<^verbatim>\<open>vertex_count * TRV_MAX_FRONTIER_LEN\<close>, the reduced capacity recorded when
  \<open>par_sorted_asc\<close> (\<^verbatim>\<open>engine_partition_algorithm() == PAR_SORTED_ASC\<close>) holds; the array
  itself is allocated with \<^verbatim>\<open>vertex_count\<close> entries in both cases. The boundaries are
  allocated (zeroed) when \<open>engine_sorted\<close> holds.
\<close>

definition frontier_init_gpu ::
  "bool \<Rightarrow> bool \<Rightarrow> nat \<Rightarrow> bitmap_t \<Rightarrow> bitmap_t \<Rightarrow> heap_t \<Rightarrow> nat
     \<Rightarrow> frontier_state_t \<times> heap_t" where
  "frontier_init_gpu par_sorted_asc engine_sorted max_frontier_len a b h n =
     (\<lparr>len = n, current = a, visited_last = b,
       list_v = replicate n 0,
       list_len = (if par_sorted_asc then max_frontier_len else n),
       count_v = 0,
       boundaries = (if engine_sorted then replicate (FRONTIER_BOUNDARY_COUNT + 1) 0 else [])\<rparr>,
      h(a := replicate (bitmap_bits_to_words n) 0,
        b := replicate (bitmap_bits_to_words n) 0))"

subsection \<open>\<^verbatim>\<open>frontier_update_bitmap\<close>\<close>

text \<open>\<^verbatim>\<open>frontier_update_bitmap_cpu(state, visited)\<close> and
  \<^verbatim>\<open>frontier_update_bitmap_gpu(state, visited, stream)\<close>: the same three assignments and
  the same call (on the stream, for the device). Both return 0, which is left out.\<close>

definition frontier_update_bitmap_cpu ::
  "frontier_state_t \<Rightarrow> bitmap_t \<Rightarrow> heap_t \<Rightarrow> frontier_state_t \<times> heap_t" where
  "frontier_update_bitmap_cpu state visited h =
     (let tmp = current state;
          state1 = state\<lparr>current := visited_last state\<rparr>;
          state2 = state1\<lparr>visited_last := tmp\<rparr>
      in (state2, bitmap_diff_copy visited (current state2) (visited_last state2) (len state2) h))"

definition frontier_update_bitmap_gpu ::
  "frontier_state_t \<Rightarrow> bitmap_t \<Rightarrow> heap_t \<Rightarrow> frontier_state_t \<times> heap_t" where
  "frontier_update_bitmap_gpu state visited h =
     (let tmp = current state;
          state1 = state\<lparr>current := visited_last state\<rparr>;
          state2 = state1\<lparr>visited_last := tmp\<rparr>
      in (state2, bitmap_diff_copy visited (current state2) (visited_last state2) (len state2) h))"

subsection \<open>\<^verbatim>\<open>frontier_build_kernel\<close>\<close>

text \<open>
  What a launch fixes and what the hardware decides. \<open>threads_per_block\<close> is
  \<^verbatim>\<open>DEFAULT_THREADS_PER_BLOCK\<close> and \<open>blocks\<close> the grid \<^verbatim>\<open>kernel_configure\<close> chose, both
  declared outside the listed sources. \<open>warp_order b\<close> is the order in which the warps
  of block \<open>b\<close> get their turn at \<^verbatim>\<open>atomicAdd(&count_l, ...)\<close>, \<open>block_order\<close> the order
  in which the blocks get theirs at \<^verbatim>\<open>atomicAdd(state.count, ...)\<close>, \<open>thread_order\<close>
  the order in which the threads of the boundary kernel run, and \<open>shared_junk\<close> what
  uninitialised shared memory holds.
\<close>

record launch_t =
  threads_per_block :: nat
  blocks :: nat
  warp_order :: "nat \<Rightarrow> nat list"
  block_order :: "nat list"
  thread_order :: "nat list"
  shared_junk :: nat

text \<open>
  \<^verbatim>\<open>scan_warp\<close>: the 32 lanes of a warp run each statement in lock step, reading
  \<^verbatim>\<open>ptr[idx - d]\<close> and \<^verbatim>\<open>ptr[idx]\<close> before any lane writes. \<open>ptr\<close> is the warp's 32
  slots of the shared array.
\<close>

definition scan_step :: "nat \<Rightarrow> nat list \<Rightarrow> nat list" where
  "scan_step d ptr =
     map (\<lambda>lane. if lane \<ge> d then ptr ! (lane - d) + ptr ! lane else ptr ! lane)
       [0..<length ptr]"

definition scan_warp :: "bool \<Rightarrow> nat list \<Rightarrow> nat \<Rightarrow> nat" where
  "scan_warp exclusive ptr lane =
     (let p = scan_step 16 (scan_step 8 (scan_step 4 (scan_step 2 (scan_step 1 ptr))))
      in if exclusive then (if lane > 0 then p ! (lane - 1) else 0) else p ! lane)"

text \<open>The \<^verbatim>\<open>__shared__\<close> variables of one block (\<^verbatim>\<open>count_b\<close> is only the scratch array
  of \<^verbatim>\<open>scan_warp\<close> and is local to \<open>build_warp\<close> below).\<close>

record build_shared =
  queue_l :: "nat list"
  count_w :: "nat list"
  count_l :: nat

text \<open>
  Lines 31-52 for the warp \<open>warpid\<close> of block \<open>b\<close>, whose lane 0 is the thread
  \<open>v0 = b * threads_per_block + 32 * warpid\<close>. With a block size that is a multiple of
  32 the lanes share \<open>widx\<close> and \<open>word\<close>, and lane \<open>l\<close> is the thread \<open>v0 + l\<close>
  testing bit \<open>l\<close>. The warps of a block touch disjoint slots of the shared arrays
  except for \<^verbatim>\<open>count_l\<close>, which they change atomically, so a warp's turn is one step.
\<close>

definition build_warp ::
  "nat \<Rightarrow> bitmap_word_t list \<Rightarrow> nat \<Rightarrow> nat \<Rightarrow> nat \<Rightarrow> build_shared \<Rightarrow> build_shared" where
  "build_warp tpb cur words b warpid sh =
     (let v0 = b * tpb + 32 * warpid;
          widx = drop_bit 5 v0
      in if widx \<ge> words then sh
         else
           (let word = cur ! widx
            in if word = 0 then sh
               else
                 (let count_b = map (\<lambda>lane. if bitmap_is_set word lane then 1 else 0) [0..<32];
                      old = count_l sh;
                      sh1 = sh\<lparr>count_l := old + popc word,
                               count_w := (count_w sh)[warpid := old]\<rparr>
                  in sh1\<lparr>queue_l :=
                       fold (\<lambda>lane q.
                               if bitmap_is_set word lane
                               then q[count_w sh1 ! warpid + scan_warp True count_b lane
                                        := v0 + lane]
                               else q)
                         [0..<32] (queue_l sh1)\<rparr>)))"

text \<open>Lines 36-53 for block \<open>b\<close>: \<^verbatim>\<open>count_l = 0\<close>, then the warps in their order.\<close>

definition build_block :: "launch_t \<Rightarrow> bitmap_word_t list \<Rightarrow> nat \<Rightarrow> nat \<Rightarrow> build_shared" where
  "build_block l cur words b =
     fold (build_warp (threads_per_block l) cur words b) (warp_order l b)
       \<lparr>queue_l = replicate (threads_per_block l) (shared_junk l),
        count_w = replicate (threads_per_block l div 32) (shared_junk l),
        count_l = 0\<rparr>"

text \<open>
  Lines 55-62 for block \<open>b\<close>. A thread gets here when it has not returned at line 33
  (\<open>alive\<close>) and \<open>idx < count_l\<close>. Thread 0 reserves the block's range by the atomic
  addition, and every thread that got here writes its slot.
\<close>

definition build_store ::
  "nat \<Rightarrow> nat \<Rightarrow> nat \<Rightarrow> build_shared \<Rightarrow> nat \<times> nat list \<Rightarrow> nat \<times> nat list" where
  "build_store tpb words b sh st =
     (let alive = (\<lambda>idx. drop_bit 5 (b * tpb + idx) < words);
          index = fst st;
          count1 = (if alive 0 \<and> 0 < count_l sh then fst st + count_l sh else fst st)
      in (count1,
          fold (\<lambda>idx ls. if alive idx \<and> idx < count_l sh
                          then ls[index + idx := queue_l sh ! idx] else ls)
            [0..<tpb] (snd st)))"

definition frontier_build_kernel ::
  "launch_t \<Rightarrow> heap_t \<Rightarrow> frontier_state_t \<Rightarrow> frontier_state_t" where
  "frontier_build_kernel l h state =
     (let words = bitmap_bits_to_words (len state);
          cur = h (current state);
          (count1, list1) =
             fold (\<lambda>b. build_store (threads_per_block l) words b (build_block l cur words b))
               (block_order l) (count_v state, list_v state)
      in state\<lparr>count_v := count1, list_v := list1\<rparr>)"

text \<open>\<^verbatim>\<open>frontier_update_list_gpu\<close>: the counter is reset, then the kernel runs.\<close>

definition frontier_update_list_gpu ::
  "launch_t \<Rightarrow> heap_t \<Rightarrow> frontier_state_t \<Rightarrow> frontier_state_t" where
  "frontier_update_list_gpu l h state = frontier_build_kernel l h (state\<lparr>count_v := 0\<rparr>)"

subsection \<open>The degree boundaries\<close>

text \<open>\<^verbatim>\<open>vid_t nbr_count = vertices[v + 1] - vertices[v]\<close>, an unsigned difference that
  wraps; \<^verbatim>\<open>vid_t\<close> is taken to be 32 bits wide here, like the bitmap word.\<close>

definition nbr_count :: "nat list \<Rightarrow> nat \<Rightarrow> nat" where
  "nbr_count vertices v = nat ((int (vertices ! (v + 1)) - int (vertices ! v)) mod 2 ^ 32)"

definition atomicMin :: "nat list \<Rightarrow> nat \<Rightarrow> nat \<Rightarrow> nat list" where
  "atomicMin mem a val = mem[a := min (mem ! a) val]"

text \<open>One thread of \<^verbatim>\<open>frontier_update_boundaries_kernel\<close>; \<^verbatim>\<open>boundaries\<close> there is
  \<^verbatim>\<open>&state.boundaries[1]\<close>.\<close>

definition update_boundaries_thread ::
  "nat list \<Rightarrow> nat \<Rightarrow> frontier_state_t \<Rightarrow> frontier_state_t" where
  "update_boundaries_thread vertices index state =
     (if index \<ge> count_v state then state
      else
        (let v = list_v state ! index;
             n = nbr_count vertices v;
             b0 = boundaries state;
             b1 = (if n > 7 \<and> n < 32 then atomicMin b0 (1 + 0) index else b0);
             b2 = (if n > 31 \<and> n < 128 then atomicMin b1 (1 + 1) index else b1);
             b3 = (if n > 127 \<and> n < 256 then atomicMin b2 (1 + 2) index else b2);
             b4 = (if n > 255 \<and> n < 1024 then atomicMin b3 (1 + 3) index else b3);
             b5 = (if n > 1023 \<and> n < 2 * 1024 then atomicMin b4 (1 + 4) index else b4);
             b6 = (if n \<ge> 2 * 1024 then atomicMin b5 (1 + 5) index else b5)
         in state\<lparr>boundaries := b6\<rparr>))"

definition frontier_update_boundaries_kernel ::
  "launch_t \<Rightarrow> nat list \<Rightarrow> frontier_state_t \<Rightarrow> frontier_state_t" where
  "frontier_update_boundaries_kernel l vertices state =
     fold (update_boundaries_thread vertices) (thread_order l) state"

text \<open>\<^verbatim>\<open>frontier_update_boundaries_launch_kernel\<close>: one thread, which launches the
  kernel above unless the list is empty.\<close>

definition frontier_update_boundaries_launch_kernel ::
  "launch_t \<Rightarrow> nat list \<Rightarrow> frontier_state_t \<Rightarrow> frontier_state_t" where
  "frontier_update_boundaries_launch_kernel l vertices state =
     (if count_v state = 0 then state
      else frontier_update_boundaries_kernel l vertices state)"

definition frontier_init_boundaries_kernel :: "frontier_state_t \<Rightarrow> frontier_state_t" where
  "frontier_init_boundaries_kernel state =
     state\<lparr>boundaries :=
       fold (\<lambda>index bs. bs[index + 1 := count_v state]) [0..<FRONTIER_BOUNDARY_COUNT]
         (boundaries state)\<rparr>"

text \<open>\<^verbatim>\<open>frontier_update_boundaries_gpu\<close>: nothing unless \<^verbatim>\<open>engine_sorted()\<close>.\<close>

definition frontier_update_boundaries_gpu ::
  "bool \<Rightarrow> launch_t \<Rightarrow> nat list \<Rightarrow> frontier_state_t \<Rightarrow> frontier_state_t" where
  "frontier_update_boundaries_gpu engine_sorted l vertices state =
     (if engine_sorted
      then frontier_update_boundaries_launch_kernel l vertices
             (frontier_init_boundaries_kernel state)
      else state)"

section \<open>All-pairs shortest paths (src/alg/totem_apsp.cu)\<close>

text \<open>
  The types \<^verbatim>\<open>vid_t\<close>, \<^verbatim>\<open>eid_t\<close> and \<^verbatim>\<open>weight_t\<close> and the constant
  \<^verbatim>\<open>WEIGHT_MAX\<close> are declared in headers outside the listed sources. A \<^verbatim>\<open>vid_t\<close> is
  taken to be an unsigned 32-bit integer, as in the frontier code: vertex ids and counts
  are \<open>nat\<close>, and a product of two of them, which the code computes in \<^verbatim>\<open>vid_t\<close>, wraps
  at \<open>2 ^ 32\<close> (\<open>vid_mul\<close>). The weight type is a type parameter \<open>'w\<close> with a linear
  order; its addition is whatever the machine type provides and is a parameter (the
  field \<open>weight_add\<close> of the environment); \<^verbatim>\<open>WEIGHT_MAX\<close> is the first parameter \<open>wmax\<close>
  of every function that uses it.
\<close>

definition vid_mul :: "nat \<Rightarrow> nat \<Rightarrow> nat" where
  "vid_mul a b = (a * b) mod 2 ^ 32"

datatype error_t = SUCCESS | FAILURE

text \<open>The fields of \<^verbatim>\<open>graph_t\<close> that the code reads. A \<^verbatim>\<open>graph_t*\<close> is a
  \<open>graph_t option\<close>, \<open>None\<close> being \<^verbatim>\<open>NULL\<close>.\<close>

record 'w graph_t =
  weighted :: bool
  vertex_count :: nat
  edge_count :: nat
  vertices :: "nat list"
  edges :: "nat list"
  weights :: "'w list"

text \<open>
  What the code's surroundings decide: whether the host allocation succeeds and what the
  fresh (uninitialised) block holds, which of the checked device calls succeed (numbered in
  the order the run makes them), the two single-source kernels, which are only
  declared \<^verbatim>\<open>extern\<close> in this file, and the addition of two \<^verbatim>\<open>weight_t\<close> values.
\<close>

record 'w dev_t =
  distances_d :: "'w list"
  new_distances_d :: "'w list"
  changed_d :: "bool list"
  has_true_d :: bool
  calls :: nat

record 'w env_t =
  malloc_ok :: bool
  malloc_junk :: "nat \<Rightarrow> 'w"
  cuda_ok :: "nat \<Rightarrow> bool"
  sssp_kernel :: "'w graph_t \<Rightarrow> 'w dev_t \<Rightarrow> 'w dev_t"
  sssp_final_kernel :: "'w graph_t \<Rightarrow> 'w dev_t \<Rightarrow> 'w dev_t"
  weight_add :: "'w \<Rightarrow> 'w \<Rightarrow> 'w"

text \<open>A run stops inside \<^verbatim>\<open>CALL_SAFE\<close> (the wrapped call failed and control does not
  come back), or accesses the result matrix outside the block that was allocated for it
  (C leaves what happens then undefined, and the model says no more about such a run), or
  returns a value.\<close>

datatype 'a run = Abort | Undefined | Return 'a

text \<open>\<^verbatim>\<open>totem_malloc(n * sizeof(weight_t), TOTEM_MEM_HOST_PINNED, &p)\<close>: a block of
  \<open>n\<close> weights with arbitrary contents, or a failure.\<close>

definition totem_malloc :: "'w env_t \<Rightarrow> nat \<Rightarrow> 'w list option" where
  "totem_malloc env n = (if malloc_ok env then Some (map (malloc_junk env) [0..<n]) else None)"

text \<open>An assignment to entry \<open>i\<close> of a block, and a \<^verbatim>\<open>for\<close> loop whose body may make
  such assignments: \<open>None\<close> is the access outside the block.\<close>

definition store :: "nat \<Rightarrow> 'w \<Rightarrow> 'w list \<Rightarrow> 'w list option" where
  "store i x d = (if i < length d then Some (d[i := x]) else None)"

fun for_loop :: "nat list \<Rightarrow> (nat \<Rightarrow> 's \<Rightarrow> 's option) \<Rightarrow> 's \<Rightarrow> 's option" where
  "for_loop [] body s = Some s"
| "for_loop (j # js) body s =
     (case body j s of None \<Rightarrow> None | Some s' \<Rightarrow> for_loop js body s')"

text \<open>Lines 47-55: one row of the edgeless result, \<^verbatim>\<open>base = &(*distances)[src * v_count]\<close>,
  the product being a \<^verbatim>\<open>vid_t\<close>.\<close>

definition edgeless_row :: "'w::zero \<Rightarrow> nat \<Rightarrow> nat \<Rightarrow> 'w list \<Rightarrow> 'w list option" where
  "edgeless_row wmax v_count src d =
     (let base = vid_mul src v_count in
      case for_loop [0..<v_count] (\<lambda>dest. store (base + dest) wmax) d of
        None \<Rightarrow> None
      | Some d1 \<Rightarrow> store (base + src) 0 d1)"

text \<open>\<^verbatim>\<open>check_special_cases(graph, distances, finished)\<close>: the result is the returned
  \<^verbatim>\<open>error_t\<close>, the value of \<^verbatim>\<open>*distances\<close> afterwards (\<open>dist0\<close> is its value before the
  call) and \<^verbatim>\<open>*finished\<close>.\<close>

definition check_special_cases ::
  "'w::zero \<Rightarrow> 'w env_t \<Rightarrow> 'w graph_t option \<Rightarrow> 'w list option
     \<Rightarrow> (error_t \<times> 'w list option \<times> bool) run" where
  "check_special_cases wmax env graph dist0 =
     (case graph of
        None \<Rightarrow> Return (FAILURE, None, True)
      | Some g \<Rightarrow>
          if \<not> weighted g \<or> vertex_count g \<le> 0 then Return (FAILURE, None, True)
          else if vertex_count g = 1 then
            (case totem_malloc env 1 of
               None \<Rightarrow> Abort
             | Some d \<Rightarrow> Return (SUCCESS, Some (d[0 := 0]), True))
          else
            (let v_count = vertex_count g in
             if v_count > 0 \<and> edge_count g = 0 then
               (case totem_malloc env (vid_mul v_count v_count) of
                  None \<Rightarrow> Abort
                | Some d \<Rightarrow>
                    (case for_loop [0..<v_count] (edgeless_row wmax v_count) d of
                       None \<Rightarrow> Undefined
                     | Some d' \<Rightarrow> Return (SUCCESS, Some d', True)))
             else Return (SUCCESS, dist0, False)))"

subsection \<open>The host implementation\<close>

text \<open>Lines 280-292: one row of the initial cost matrix.\<close>

definition init_row :: "'w::zero \<Rightarrow> 'w graph_t \<Rightarrow> nat \<Rightarrow> 'w list \<Rightarrow> 'w list option" where
  "init_row wmax g src d =
     (let v_count = vertex_count g;
          base = vid_mul src v_count
      in case for_loop [0..<v_count] (\<lambda>dest. store (base + dest) wmax) d of
           None \<Rightarrow> None
         | Some d1 \<Rightarrow>
             (case for_loop [vertices g ! src ..< vertices g ! (src + 1)]
                     (\<lambda>edge. store (base + edges g ! edge) (weights g ! edge)) d1 of
                None \<Rightarrow> None
              | Some d2 \<Rightarrow> store (base + src) 0 d2))"

text \<open>Lines 295-304: the relaxation through \<open>mid\<close>. \<open>relax_cell\<close> is the assignment
  of line 301, with \<^verbatim>\<open>base = &distances[src * v_count]\<close> and
  \<^verbatim>\<open>mid_base = &distances[mid * v_count]\<close> (products in \<^verbatim>\<open>vid_t\<close>) and \<open>add\<close> the
  addition of \<^verbatim>\<open>weight_t\<close>; it reads three entries and writes one. The matrix is
  updated in place, so each assignment reads what the earlier ones wrote. The rows are
  taken in the order of \<open>src\<close>. (The loop over \<open>src\<close> is an OpenMP parallel loop; a thread
  writes only its own row and reads, besides it, the row of \<open>mid\<close>, which the relaxation
  through \<open>mid\<close> leaves as it is when the diagonal is 0 and no entry is negative.)\<close>

definition relax_cell ::
  "('w \<Rightarrow> 'w \<Rightarrow> 'w) \<Rightarrow> nat \<Rightarrow> nat \<Rightarrow> nat \<Rightarrow> nat \<Rightarrow> ('w::linorder) list
     \<Rightarrow> 'w list option" where
  "relax_cell add v_count mid src dest d =
     (let base = vid_mul src v_count;
          mid_base = vid_mul mid v_count
      in if base + dest < length d \<and> base + mid < length d \<and> mid_base + dest < length d
         then Some (d[base + dest :=
                      min (d ! (base + dest)) (add (d ! (base + mid)) (d ! (mid_base + dest)))])
         else None)"

definition relax_row ::
  "('w \<Rightarrow> 'w \<Rightarrow> 'w) \<Rightarrow> nat \<Rightarrow> nat \<Rightarrow> nat \<Rightarrow> ('w::linorder) list \<Rightarrow> 'w list option" where
  "relax_row add v_count mid src d = for_loop [0..<v_count] (relax_cell add v_count mid src) d"

definition relax_mid ::
  "('w \<Rightarrow> 'w \<Rightarrow> 'w) \<Rightarrow> nat \<Rightarrow> nat \<Rightarrow> ('w::linorder) list \<Rightarrow> 'w list option" where
  "relax_mid add v_count mid d = for_loop [0..<v_count] (relax_row add v_count mid) d"

definition apsp_cpu ::
  "('w::{zero,linorder}) \<Rightarrow> 'w env_t \<Rightarrow> 'w graph_t option \<Rightarrow> 'w list option
     \<Rightarrow> (error_t \<times> 'w list option) run" where
  "apsp_cpu wmax env graph path_ret =
     (case check_special_cases wmax env graph path_ret of
        Abort \<Rightarrow> Abort
      | Undefined \<Rightarrow> Undefined
      | Return (ret_val, path_ret1, finished) \<Rightarrow>
          if finished then Return (ret_val, path_ret1)
          else
            (case graph of
               None \<Rightarrow> Abort
             | Some g \<Rightarrow>
                 (let v_count = vertex_count g in
                  case totem_malloc env (vid_mul (vertex_count g) (vertex_count g)) of
                    None \<Rightarrow> Abort
                  | Some d0 \<Rightarrow>
                      (case for_loop [0..<v_count] (init_row wmax g) d0 of
                         None \<Rightarrow> Undefined
                       | Some d1 \<Rightarrow>
                           (case for_loop [0..<v_count]
                                   (relax_mid (weight_add env) v_count) d1 of
                              None \<Rightarrow> Undefined
                            | Some d2 \<Rightarrow> Return (SUCCESS, Some d2))))))"

subsection \<open>The accelerator implementation\<close>

text \<open>A checked device call (\<^verbatim>\<open>CHK_SUCCESS\<close>, \<^verbatim>\<open>CHK_CU_SUCCESS\<close>): its outcome is the
  environment's, and the count of calls made goes up.\<close>

definition chk :: "'w env_t \<Rightarrow> 'w dev_t \<Rightarrow> bool \<times> 'w dev_t" where
  "chk env dev = (cuda_ok env (calls dev), dev\<lparr>calls := calls dev + 1\<rparr>)"

text \<open>\<^verbatim>\<open>initialize_gpu\<close>: \<open>None\<close> is \<^verbatim>\<open>FAILURE\<close> (whatever was acquired has been
  released again), \<open>Some\<close> is \<^verbatim>\<open>SUCCESS\<close> with the zeroed device arrays. The five checked
  calls are \<^verbatim>\<open>graph_initialize_device\<close> and four \<^verbatim>\<open>totem_calloc\<close>.\<close>

definition initialize_gpu ::
  "'w::zero env_t \<Rightarrow> 'w graph_t \<Rightarrow> nat \<Rightarrow> 'w dev_t option" where
  "initialize_gpu env graph distance_length =
     (if \<not> cuda_ok env 0 then None
      else if \<not> cuda_ok env 1 then None
      else if \<not> cuda_ok env 2 then None
      else if \<not> cuda_ok env 3 then None
      else if \<not> cuda_ok env 4 then None
      else Some \<lparr>distances_d = replicate distance_length 0,
                 new_distances_d = replicate distance_length 0,
                 changed_d = replicate distance_length False,
                 has_true_d = False,
                 calls = 5\<rparr>)"

text \<open>\<^verbatim>\<open>initialize_source_gpu\<close>: two unchecked \<^verbatim>\<open>totem_memset\<close>, then four checked
  \<^verbatim>\<open>cudaMemset\<close>; the first failure returns \<^verbatim>\<open>FAILURE\<close>.\<close>

definition initialize_source_gpu ::
  "'w::zero \<Rightarrow> 'w env_t \<Rightarrow> nat \<Rightarrow> nat \<Rightarrow> 'w dev_t \<Rightarrow> error_t \<times> 'w dev_t" where
  "initialize_source_gpu wmax env source_id distance_length dev =
     (let dev1 = dev\<lparr>distances_d := replicate distance_length wmax,
                     new_distances_d := replicate distance_length wmax\<rparr>;
          (ok2, dev2) = chk env (dev1\<lparr>distances_d := (distances_d dev1)[source_id := 0]\<rparr>)
      in if \<not> ok2 then (FAILURE, dev2)
         else
           (let (ok3, dev3) = chk env (dev2\<lparr>changed_d := replicate distance_length False\<rparr>)
            in if \<not> ok3 then (FAILURE, dev3)
               else
                 (let (ok4, dev4) = chk env (dev3\<lparr>changed_d := (changed_d dev3)[source_id := True]\<rparr>)
                  in if \<not> ok4 then (FAILURE, dev4)
                     else
                       (let (ok5, dev5) = chk env (dev4\<lparr>has_true_d := False\<rparr>)
                        in if \<not> ok5 then (FAILURE, dev5) else (SUCCESS, dev5)))))"

text \<open>Lines 223-234: \<^verbatim>\<open>while (has_true)\<close>, entered with \<^verbatim>\<open>has_true = true\<close>. The loop
  runs for as long as the final kernel reports a change, so it need not end: \<open>None\<close> is
  the run that never leaves it.\<close>

partial_function (option) sssp_loop ::
  "'w env_t \<Rightarrow> 'w graph_t \<Rightarrow> 'w dev_t \<Rightarrow> (error_t \<times> 'w dev_t) option" where
  "sssp_loop env g dev =
     (let dev1 = sssp_kernel env g dev;
          (ok2, dev2) = chk env (dev1\<lparr>changed_d := replicate (vertex_count g) False\<rparr>)
      in if \<not> ok2 then Some (FAILURE, dev2)
         else
           (let (ok3, dev3) = chk env (dev2\<lparr>has_true_d := False\<rparr>)
            in if \<not> ok3 then Some (FAILURE, dev3)
               else
                 (let dev4 = sssp_final_kernel env g dev3;
                      (ok5, dev5) = chk env dev4
                  in if \<not> ok5 then Some (FAILURE, dev5)
                     else if has_true_d dev5 then sssp_loop env g dev5
                     else Some (SUCCESS, dev5))))"

declare sssp_loop.simps [code]

text \<open>Lines 218-241: the loop over the sources. \<open>distances\<close> is the host matrix; the
  row of \<open>source_id\<close>, at \<^verbatim>\<open>&distances[source_id * graph->vertex_count]\<close> (a product in
  \<^verbatim>\<open>vid_t\<close>), is overwritten by the device's distances. The outer \<open>None\<close> is the run
  that never leaves the inner loop.\<close>

definition copy_row :: "nat \<Rightarrow> nat \<Rightarrow> 'w list \<Rightarrow> 'w list \<Rightarrow> 'w list option" where
  "copy_row v_count source_id row d =
     for_loop [0..<v_count] (\<lambda>j. store (vid_mul source_id v_count + j) (row ! j)) d"

fun apsp_gpu_sources ::
  "'w::zero \<Rightarrow> 'w env_t \<Rightarrow> 'w graph_t \<Rightarrow> nat list \<Rightarrow> 'w dev_t \<Rightarrow> 'w list
     \<Rightarrow> (error_t \<times> 'w list) run option" where
  "apsp_gpu_sources wmax env g [] dev distances = Some (Return (SUCCESS, distances))"
| "apsp_gpu_sources wmax env g (source_id # rest) dev distances =
     (case initialize_source_gpu wmax env source_id (vertex_count g) dev of
        (FAILURE, dev1) \<Rightarrow> Some (Return (FAILURE, distances))
      | (SUCCESS, dev1) \<Rightarrow>
          (case sssp_loop env g dev1 of
             None \<Rightarrow> None
           | Some (FAILURE, dev2) \<Rightarrow> Some (Return (FAILURE, distances))
           | Some (SUCCESS, dev2) \<Rightarrow>
               (let (ok3, dev3) = chk env dev2
                in if \<not> ok3 then Some (Return (FAILURE, distances))
                   else
                     (case copy_row (vertex_count g) source_id (distances_d dev3) distances of
                        None \<Rightarrow> Some Undefined
                      | Some distances' \<Rightarrow>
                          apsp_gpu_sources wmax env g rest dev3 distances'))))"

text \<open>\<^verbatim>\<open>apsp_gpu(graph, path_ret)\<close>. Both error labels end in
  \<^verbatim>\<open>*path_ret = NULL; return FAILURE\<close>.\<close>

definition apsp_gpu ::
  "'w::zero \<Rightarrow> 'w env_t \<Rightarrow> 'w graph_t option \<Rightarrow> 'w list option
     \<Rightarrow> (error_t \<times> 'w list option) run option" where
  "apsp_gpu wmax env graph path_ret =
     (case check_special_cases wmax env graph path_ret of
        Abort \<Rightarrow> Some Abort
      | Undefined \<Rightarrow> Some Undefined
      | Return (ret_val, path_ret1, finished) \<Rightarrow>
          if finished then Some (Return (ret_val, path_ret1))
          else
            (case graph of
               None \<Rightarrow> Some Abort
             | Some g \<Rightarrow>
                 (case totem_malloc env (vid_mul (vertex_count g) (vertex_count g)) of
                    None \<Rightarrow> Some Abort
                  | Some distances \<Rightarrow>
                      (case initialize_gpu env g (vertex_count g) of
                         None \<Rightarrow> Some (Return (FAILURE, None))
                       | Some dev \<Rightarrow>
                           (case apsp_gpu_sources wmax env g [0..<vertex_count g] dev distances of
                              None \<Rightarrow> None
                            | Some Abort \<Rightarrow> Some Abort
                            | Some Undefined \<Rightarrow> Some Undefined
                            | Some (Return (FAILURE, d)) \<Rightarrow> Some (Return (FAILURE, None))
                            | Some (Return (SUCCESS, d)) \<Rightarrow> Some (Return (SUCCESS, Some d)))))))"

section \<open>The engine interface (src/unnamed/part_001)\<close>

text \<open>
  \<^verbatim>\<open>ENGINE_FETCH_DST\<close> is the one piece of code in the interface; the rest are
  declarations. The macros it calls, \<^verbatim>\<open>GET_PARTITION_ID\<close>, \<^verbatim>\<open>GET_VERTEX_ID\<close> and
  \<^verbatim>\<open>GROOVES_BOX_INDEX\<close>, are defined outside the listed sources and are parameters of
  the model, as is the type \<open>'n\<close> of a neighbour reference.
\<close>

record 'n id_macros =
  GET_PARTITION_ID :: "'n \<Rightarrow> nat"
  GET_VERTEX_ID :: "'n \<Rightarrow> nat"
  GROOVES_BOX_INDEX :: "nat \<Rightarrow> nat \<Rightarrow> nat \<Rightarrow> nat"

text \<open>An address of a state value: the array it lies in and the index in that array.
  Of a box of the outbox table only the field \<^verbatim>\<open>values\<close>, the array of the box, is
  read.\<close>

type_synonym array_t = nat
type_synonym dst_t = "array_t \<times> nat"

record box_t =
  values_p :: array_t

text \<open>
  \<^verbatim>\<open>ENGINE_FETCH_DST(_pid, _nbr, _outbox, _pstate, _pcount, _dst, _type)\<close>: the value
  assigned to \<^verbatim>\<open>_dst\<close>. The macro reads \<^verbatim>\<open>_outbox[box_id]\<close> unchecked; \<open>None\<close> is the
  read outside the table, which C leaves undefined.
\<close>

definition ENGINE_FETCH_DST ::
  "'n id_macros \<Rightarrow> nat \<Rightarrow> 'n \<Rightarrow> box_t list \<Rightarrow> array_t \<Rightarrow> nat \<Rightarrow> dst_t option" where
  "ENGINE_FETCH_DST m pid nbr outbox pstate pcount =
     (let nbr_pid = GET_PARTITION_ID m nbr
      in if nbr_pid \<noteq> pid then
           (let box_id = GROOVES_BOX_INDEX m nbr_pid pid pcount
            in if box_id < length outbox
               then Some (values_p (outbox ! box_id), GET_VERTEX_ID m nbr)
               else None)
         else Some (pstate, GET_VERTEX_ID m nbr))"

text \<open>Reading the value at an address, in a store of arrays.\<close>

definition deref :: "(array_t \<Rightarrow> 'a list) \<Rightarrow> dst_t \<Rightarrow> 'a" where
  "deref mem dst = mem (fst dst) ! snd dst"

section \<open>Notions used to state the properties\<close>

text \<open>
  A launch is well formed for \<open>n\<close> vertex ids when the block size is a multiple of the
  warp width, the grid has a thread for every id, and the two orders are orders: every
  warp of a block, and every block, gets its turn exactly once.
\<close>

definition launch_wf :: "launch_t \<Rightarrow> nat \<Rightarrow> bool" where
  "launch_wf l n \<longleftrightarrow>
     threads_per_block l mod 32 = 0 \<and>
     n \<le> blocks l * threads_per_block l \<and>
     list_all (\<lambda>b. mset (warp_order l b) = mset [0..<threads_per_block l div 32])
       [0..<blocks l] \<and>
     mset (block_order l) = mset [0..<blocks l]"

text \<open>What the warp whose lane 0 is thread \<open>v0\<close> appends to its block's queue, what
  block \<open>b\<close> appends to the list, and the bits a grid can see: those of the words below
  \<open>words\<close>.\<close>

definition warp_ids :: "bitmap_word_t list \<Rightarrow> nat \<Rightarrow> nat \<Rightarrow> nat list" where
  "warp_ids cur words v0 =
     (if drop_bit 5 v0 < words
      then map (\<lambda>lane. v0 + lane) (filter (bitmap_is_set (cur ! drop_bit 5 v0)) [0..<32])
      else [])"

definition block_ids :: "launch_t \<Rightarrow> bitmap_word_t list \<Rightarrow> nat \<Rightarrow> nat \<Rightarrow> nat list" where
  "block_ids l cur words b =
     concat (map (\<lambda>w. warp_ids cur words (b * threads_per_block l + 32 * w)) (warp_order l b))"

definition covered_bit :: "bitmap_word_t list \<Rightarrow> nat \<Rightarrow> nat \<Rightarrow> bool" where
  "covered_bit cur words v \<longleftrightarrow> v div 32 < words \<and> bitmap_bit cur v"

text \<open>
  The bucket of an out-degree, numbered as the entries of the boundary array: 0 for the
  degrees below 8, then 8-31, 32-127, 128-255, 256-1023, 1024-2047 and 2048 or more.
  \<open>first_index P n\<close> is the least index below \<open>n\<close> that satisfies \<open>P\<close>, and \<open>n\<close> when
  there is none.
\<close>

definition degree_bucket :: "nat \<Rightarrow> nat" where
  "degree_bucket n =
     (if n < 8 then 0 else if n < 32 then 1 else if n < 128 then 2 else if n < 256 then 3
      else if n < 1024 then 4 else if n < 2048 then 5 else 6)"

definition first_index :: "(nat \<Rightarrow> bool) \<Rightarrow> nat \<Rightarrow> nat" where
  "first_index P n = length (takeWhile (\<lambda>i. \<not> P i) [0..<n])"

text \<open>
  One level of a traversal as a client drives the frontier: a fresh state for \<open>n\<close>
  vertices (bitmaps at the addresses 1 and 2, boundaries allocated), the visited set
  \<open>visited_words\<close> (at address 3) taken over by \<^verbatim>\<open>frontier_update_bitmap_gpu\<close>, the list
  built, the boundaries computed over the offsets array \<open>offsets\<close>.
\<close>

definition frontier_level ::
  "launch_t \<Rightarrow> nat \<Rightarrow> bitmap_word_t list \<Rightarrow> nat list \<Rightarrow> frontier_state_t" where
  "frontier_level l n visited_words offsets =
     (let (s0, h0) = frontier_init_gpu False True n 1 2 (\<lambda>a. []) n;
          (s1, h1) = frontier_update_bitmap_gpu s0 3 (h0(3 := visited_words));
          s2 = frontier_update_list_gpu l h1 s1
      in frontier_update_boundaries_gpu True l offsets s2)"


text \<open>
  Cell \<open>(u, v)\<close> of a flat \<open>n\<close> by \<open>n\<close> matrix. The weight of the edge from \<open>u\<close> to \<open>v\<close> in
  the adjacency arrays of a graph, if there is one; \<open>is_path g u xs v\<close> says that each
  step of \<open>u\<close>, \<open>xs\<close>, \<open>v\<close> is an edge. A graph is well formed when its offsets, targets
  and weights fit together, no vertex has two edges to the same target, and every weight
  lies between 0 and \<^verbatim>\<open>WEIGHT_MAX\<close>.
\<close>

definition cell :: "nat \<Rightarrow> 'a list \<Rightarrow> nat \<Rightarrow> nat \<Rightarrow> 'a" where
  "cell n d u v = d ! (u * n + v)"

definition out_edges :: "'w graph_t \<Rightarrow> nat \<Rightarrow> nat list" where
  "out_edges g u = [vertices g ! u..<vertices g ! (u + 1)]"

definition edge_weight :: "'w graph_t \<Rightarrow> nat \<Rightarrow> nat \<Rightarrow> 'w option" where
  "edge_weight g u v =
     (case filter (\<lambda>e. edges g ! e = v) (out_edges g u) of
        [] \<Rightarrow> None
      | e # _ \<Rightarrow> Some (weights g ! e))"

fun is_path :: "'w graph_t \<Rightarrow> nat \<Rightarrow> nat list \<Rightarrow> nat \<Rightarrow> bool" where
  "is_path g u [] v = (edge_weight g u v \<noteq> None)"
| "is_path g u (x # xs) v = (edge_weight g u x \<noteq> None \<and> is_path g x xs v)"

definition graph_wf :: "('w::{zero,linorder}) \<Rightarrow> 'w graph_t \<Rightarrow> bool" where
  "graph_wf wmax g \<longleftrightarrow>
     0 \<le> wmax \<and>
     length (vertices g) = vertex_count g + 1 \<and>
     list_all (\<lambda>u.
         list_all (\<lambda>e. e < length (edges g) \<and> e < length (weights g) \<and>
                         edges g ! e < vertex_count g \<and>
                         0 \<le> weights g ! e \<and> weights g ! e \<le> wmax)
           (out_edges g u) \<and>
         distinct (map (\<lambda>e. edges g ! e) (out_edges g u)))
       [0..<vertex_count g]"

text \<open>
  The total weight of a path is a sum of its edge weights, and a machine addition need
  not be associative, so a total depends on how the additions are grouped. A \<open>grouping\<close>
  of a path from \<open>u\<close> to \<open>v\<close> is either one step, or the grouping of its part up to an
  inner vertex \<open>m\<close> joined to the grouping of its part from \<open>m\<close> on; \<open>inner\<close> lists the inner
  vertices. \<open>path_sum\<close> is the total of a path under a grouping (if each step is an edge),
  \<open>path_weight\<close> the total with the additions grouped to the right, which is the total
  under every grouping when the addition is associative. \<open>group_sum\<close> is the same sum over
  a cost function in place of the edges.
\<close>

datatype grouping = Step | Join grouping nat grouping

fun inner :: "grouping \<Rightarrow> nat list" where
  "inner Step = []"
| "inner (Join l m r) = inner l @ m # inner r"

fun path_sum :: "('w \<Rightarrow> 'w \<Rightarrow> 'w) \<Rightarrow> 'w graph_t \<Rightarrow> nat \<Rightarrow> grouping \<Rightarrow> nat \<Rightarrow> 'w option" where
  "path_sum add g u Step v = edge_weight g u v"
| "path_sum add g u (Join l m r) v =
     (case path_sum add g u l m of
        None \<Rightarrow> None
      | Some a \<Rightarrow> (case path_sum add g m r v of None \<Rightarrow> None | Some b \<Rightarrow> Some (add a b)))"

fun path_weight :: "('w \<Rightarrow> 'w \<Rightarrow> 'w) \<Rightarrow> 'w graph_t \<Rightarrow> nat \<Rightarrow> nat list \<Rightarrow> nat \<Rightarrow> 'w option" where
  "path_weight add g u [] v = edge_weight g u v"
| "path_weight add g u (x # xs) v =
     (case edge_weight g u x of
        None \<Rightarrow> None
      | Some w \<Rightarrow> (case path_weight add g x xs v of None \<Rightarrow> None | Some t \<Rightarrow> Some (add w t)))"

fun group_sum :: "('w \<Rightarrow> 'w \<Rightarrow> 'w) \<Rightarrow> (nat \<Rightarrow> nat \<Rightarrow> 'w) \<Rightarrow> nat \<Rightarrow> grouping \<Rightarrow> nat \<Rightarrow> 'w" where
  "group_sum add c u Step v = c u v"
| "group_sum add c u (Join l m r) v = add (group_sum add c u l m) (group_sum add c m r v)"

fun right_grouping :: "nat list \<Rightarrow> grouping" where
  "right_grouping [] = Step"
| "right_grouping (x # xs) = Join Step x (right_grouping xs)"

text \<open>What is asked of the addition of weights: on weights that are not negative it is
  monotone in both arguments and has 0 as its neutral element. Exact additions are among
  these, and so are rounding ones, such as that of a binary floating-point type on its
  non-negative values; the latter are not associative.\<close>

definition weight_add_wf :: "(('w::{zero,linorder}) \<Rightarrow> 'w \<Rightarrow> 'w) \<Rightarrow> bool" where
  "weight_add_wf add \<longleftrightarrow>
     (\<forall>a a' b b'. 0 \<le> a \<and> a \<le> a' \<and> 0 \<le> b \<and> b \<le> b' \<longrightarrow> add a b \<le> add a' b') \<and>
     (\<forall>a. 0 \<le> a \<longrightarrow> add a 0 = a \<and> add 0 a = a)"

text \<open>The cost matrix that lines 280-292 of \<^verbatim>\<open>apsp_cpu\<close> set up: 0 on the diagonal, the
  weight of the edge where there is one, \<^verbatim>\<open>WEIGHT_MAX\<close> elsewhere. A matrix is
  \<open>attained\<close> when each of its cells is a sum over this cost along some walk under some
  grouping.\<close>

definition cost0 :: "('w::zero) \<Rightarrow> 'w graph_t \<Rightarrow> nat \<Rightarrow> nat \<Rightarrow> 'w" where
  "cost0 wmax g u v =
     (if u = v then 0 else case edge_weight g u v of None \<Rightarrow> wmax | Some w \<Rightarrow> w)"

definition attained ::
  "('w \<Rightarrow> 'w \<Rightarrow> 'w) \<Rightarrow> (nat \<Rightarrow> nat \<Rightarrow> 'w) \<Rightarrow> nat \<Rightarrow> 'w list \<Rightarrow> bool" where
  "attained add c n d \<longleftrightarrow>
     length d = n * n \<and>
     (\<forall>u < n. \<forall>v < n. \<exists>t. set (inner t) \<subseteq> {..<n} \<and> cell n d u v = group_sum add c u t v)"

text \<open>
  The loops of \<^verbatim>\<open>check_special_cases\<close> and \<^verbatim>\<open>apsp_cpu\<close> as functions on an \<open>n\<close> by \<open>n\<close>
  matrix in which every access lands where it is meant to: they are what the code's
  loops compute as long as no product wraps and no index leaves the block (shown below),
  and the properties of the result are proved about them.
\<close>

definition edgeless_row_in :: "'w::zero \<Rightarrow> nat \<Rightarrow> nat \<Rightarrow> 'w list \<Rightarrow> 'w list" where
  "edgeless_row_in wmax n src d =
     (fold (\<lambda>dest d. d[src * n + dest := wmax]) [0..<n] d)[src * n + src := 0]"

definition init_row_in :: "'w::zero \<Rightarrow> 'w graph_t \<Rightarrow> nat \<Rightarrow> 'w list \<Rightarrow> 'w list" where
  "init_row_in wmax g src d =
     (let n = vertex_count g;
          d1 = fold (\<lambda>dest d. d[src * n + dest := wmax]) [0..<n] d;
          d2 = fold (\<lambda>edge d. d[src * n + edges g ! edge := weights g ! edge])
                 (out_edges g src) d1
      in d2[src * n + src := 0])"

definition relax_cell_in ::
  "('w \<Rightarrow> 'w \<Rightarrow> 'w) \<Rightarrow> nat \<Rightarrow> nat \<Rightarrow> nat \<Rightarrow> nat \<Rightarrow> ('w::linorder) list \<Rightarrow> 'w list" where
  "relax_cell_in add n mid src dest d =
     d[src * n + dest :=
         min (d ! (src * n + dest)) (add (d ! (src * n + mid)) (d ! (mid * n + dest)))]"

definition relax_row_in ::
  "('w \<Rightarrow> 'w \<Rightarrow> 'w) \<Rightarrow> nat \<Rightarrow> nat \<Rightarrow> nat \<Rightarrow> ('w::linorder) list \<Rightarrow> 'w list" where
  "relax_row_in add n mid src d = fold (relax_cell_in add n mid src) [0..<n] d"

definition relax_mid_in ::
  "('w \<Rightarrow> 'w \<Rightarrow> 'w) \<Rightarrow> nat \<Rightarrow> nat \<Rightarrow> ('w::linorder) list \<Rightarrow> 'w list" where
  "relax_mid_in add n mid d = fold (relax_row_in add n mid) [0..<n] d"
section \<open>Concrete inputs\<close>

text \<open>Environments over natural-number weights: the host allocation succeeds, fresh memory
  holds the values 7, 8, 9, ..., and the kernels leave the device state alone. In
  \<open>env_no_device\<close> every checked device call fails; in \<open>env_fail_at k\<close> only call
  number \<open>k\<close> does. Both add weights exactly. \<open>env_rounding\<close> is \<open>env_no_device\<close> with
  an addition that rounds: a sum of two non-zero weights that reaches 16 is rounded down
  to an even number, a coarse picture of a floating-point addition, in which a large sum
  loses its low bits.\<close>

definition env_no_device :: "nat env_t" where
  "env_no_device = \<lparr>malloc_ok = True, malloc_junk = (\<lambda>i. 7 + i), cuda_ok = (\<lambda>n. False),
     sssp_kernel = (\<lambda>g dev. dev), sssp_final_kernel = (\<lambda>g dev. dev), weight_add = (+)\<rparr>"

definition env_fail_at :: "nat \<Rightarrow> nat env_t" where
  "env_fail_at k = \<lparr>malloc_ok = True, malloc_junk = (\<lambda>i. 7 + i), cuda_ok = (\<lambda>n. n \<noteq> k),
     sssp_kernel = (\<lambda>g dev. dev), sssp_final_kernel = (\<lambda>g dev. dev), weight_add = (+)\<rparr>"

definition round_add :: "nat \<Rightarrow> nat \<Rightarrow> nat" where
  "round_add a b =
     (if a = 0 \<or> b = 0 \<or> a + b < 16 then a + b else 2 * ((a + b) div 2))"

definition env_rounding :: "nat env_t" where
  "env_rounding = \<lparr>malloc_ok = True, malloc_junk = (\<lambda>i. 7 + i), cuda_ok = (\<lambda>n. False),
     sssp_kernel = (\<lambda>g dev. dev), sssp_final_kernel = (\<lambda>g dev. dev),
     weight_add = round_add\<rparr>"

text \<open>Three vertices and no edge; one vertex; the path 0 -> 1 -> 2 with weights 6 and 6;
  the path 0 -> 2 -> 1 -> 3 with weights 1, 1 and 16; and two graphs of 65536 vertices,
  one without an edge and one with the single edge 0 -> 1 of weight 6.\<close>

definition edgeless3 :: "bool \<Rightarrow> nat graph_t" where
  "edgeless3 w = \<lparr>weighted = w, vertex_count = 3, edge_count = 0,
     vertices = [0, 0, 0, 0], edges = [], weights = []\<rparr>"

definition single1 :: "bool \<Rightarrow> nat graph_t" where
  "single1 w = \<lparr>weighted = w, vertex_count = 1, edge_count = 0,
     vertices = [0, 0], edges = [], weights = []\<rparr>"

definition path3 :: "nat graph_t" where
  "path3 = \<lparr>weighted = True, vertex_count = 3, edge_count = 2,
     vertices = [0, 1, 2, 2], edges = [1, 2], weights = [6, 6]\<rparr>"

definition zigzag4 :: "nat graph_t" where
  "zigzag4 = \<lparr>weighted = True, vertex_count = 4, edge_count = 3,
     vertices = [0, 1, 2, 3, 3], edges = [2, 3, 1], weights = [1, 16, 1]\<rparr>"

definition edgeless65536 :: "nat graph_t" where
  "edgeless65536 = \<lparr>weighted = True, vertex_count = 65536, edge_count = 0,
     vertices = replicate 65537 0, edges = [], weights = []\<rparr>"

definition edge65536 :: "nat graph_t" where
  "edge65536 = \<lparr>weighted = True, vertex_count = 65536, edge_count = 1,
     vertices = 0 # replicate 65536 1, edges = [1], weights = [6]\<rparr>"

text \<open>Launches: one block of one warp; two blocks of two warps with the warps and the
  blocks taking their turns in descending order, and the same grid in ascending order.\<close>

definition launch_1x32 :: launch_t where
  "launch_1x32 = \<lparr>threads_per_block = 32, blocks = 1, warp_order = (\<lambda>b. [0]),
     block_order = [0], thread_order = [0, 1, 2, 3], shared_junk = 99\<rparr>"

definition launch_2x64_desc :: launch_t where
  "launch_2x64_desc = \<lparr>threads_per_block = 64, blocks = 2, warp_order = (\<lambda>b. [1, 0]),
     block_order = [1, 0], thread_order = [3, 2, 1, 0], shared_junk = 99\<rparr>"

definition launch_2x64_asc :: launch_t where
  "launch_2x64_asc = \<lparr>threads_per_block = 64, blocks = 2, warp_order = (\<lambda>b. [0, 1]),
     block_order = [0, 1], thread_order = [0, 1, 2, 3], shared_junk = 77\<rparr>"

text \<open>A frontier state for 70 vertices whose \<open>current\<close> bitmap (address 1 of
  \<open>heap70\<close>) has the bits 0, 2, 64 and 65 set; address 3 holds a visited set.\<close>

definition heap70 :: heap_t where
  "heap70 = (\<lambda>a. [])(1 := [5, 0, 3], 2 := [0, 0, 0], 3 := [7, 1, 3])"

definition state70 :: frontier_state_t where
  "state70 = \<lparr>len = 70, current = 1, visited_last = 2, list_v = replicate 70 0,
     list_len = 70, count_v = 5, boundaries = replicate 7 0\<rparr>"

text \<open>Offsets arrays, ascending in degree: degrees 3 and 40; degrees 3, 10 and 40; and 70
  vertices of which the first 64 have degree 8 and the last 6 degree 32.\<close>

definition offsets_3_40 :: "nat list" where
  "offsets_3_40 = [0, 3, 43]"

definition offsets_3_10_40 :: "nat list" where
  "offsets_3_10_40 = [0, 3, 13, 53]"

definition offsets70 :: "nat list" where
  "offsets70 = map (\<lambda>v. if v \<le> 64 then 8 * v else 512 + 32 * (v - 64)) [0..<71]"

text \<open>A frontier state that lists the vertices 0, 1 and 2.\<close>

definition state3 :: frontier_state_t where
  "state3 = \<lparr>len = 3, current = 2, visited_last = 1, list_v = [0, 1, 2], list_len = 3,
     count_v = 3, boundaries = [0, 9, 9, 9, 9, 9, 9]\<rparr>"

text \<open>Neighbour references as pairs of a partition id and a local id, and a box index
  that numbers the peers of a partition from the next partition on, cyclically. Three
  partitions; partition 1 has its state array at address 10 and its two boxes at the
  addresses 20 and 21.\<close>

definition pair_macros :: "(nat \<times> nat) id_macros" where
  "pair_macros = \<lparr>GET_PARTITION_ID = fst, GET_VERTEX_ID = snd,
     GROOVES_BOX_INDEX = (\<lambda>rmt_pid local_pid pcount.
        (rmt_pid + (pcount - local_pid)) mod pcount - 1)\<rparr>"

definition outbox1 :: "box_t list" where
  "outbox1 = [\<lparr>values_p = 20\<rparr>, \<lparr>values_p = 21\<rparr>]"

section \<open>Auxiliary facts about lists\<close>

lemma replicate_num: "replicate (numeral k) x = x # replicate (pred_numeral k) x"
  by (simp add: numeral_eq_Suc)

lemma length_fold_list_update [simp]:
  "length (fold (\<lambda>j d. d[f j := g j]) js d) = length d"
  by (induction js arbitrary: d) auto

lemma length_fold_cond_write [simp]:
  "length (fold (\<lambda>j d. if c j then d[f j := g j] else d) js d) = length d"
  by (induction js arbitrary: d) auto

lemma nth_fold_cond_write:
  "i < length d \<Longrightarrow>
     (fold (\<lambda>j d. if c j then d[b + j := f j] else d) [0..<k] d) ! i =
       (if b \<le> i \<and> i < b + k \<and> c (i - b) then f (i - b) else d ! i)"
proof (induction k)
  case 0
  then show ?case by auto
next
  case (Suc k)
  then show ?case
    by (auto simp: nth_list_update less_Suc_eq)
qed

lemma nth_fold_write:
  "i < length d \<Longrightarrow>
     (fold (\<lambda>j d. d[b + j := f j]) [0..<k] d) ! i =
       (if b \<le> i \<and> i < b + k then f (i - b) else d ! i)"
  using nth_fold_cond_write [of i d "\<lambda>j. True" b f k] by simp

section \<open>The special cases and the failure paths of APSP\<close>

subsection \<open>Cells of the flat matrix\<close>

text \<open>Cell \<open>(u, v)\<close> of the flat \<open>n\<close> by \<open>n\<close> matrix is index \<open>u * n + v\<close>.\<close>

lemma cell_eq_iff:
  fixes n :: nat
  assumes "v < n" "v' < n"
  shows "u * n + v = u' * n + v' \<longleftrightarrow> u = u' \<and> v = v'"
proof
  assume e: "u * n + v = u' * n + v'"
  then have "(u * n + v) div n = (u' * n + v') div n" by simp
  with assms have "u = u'" by simp
  with e show "u = u' \<and> v = v'" by simp
qed simp

lemma cell_less:
  fixes n :: nat
  assumes "u < n" "v < n"
  shows "u * n + v < n * n"
proof -
  have "u * n + v < u * n + n" using assms by simp
  also have "\<dots> = (Suc u) * n" by simp
  also have "\<dots> \<le> n * n" using assms by (intro mult_le_mono1) simp
  finally show ?thesis .
qed

lemma row_range_iff:
  fixes n :: nat
  assumes "v < n"
  shows "(src * n \<le> u * n + v \<and> u * n + v < src * n + n) \<longleftrightarrow> u = src"
proof
  assume h: "src * n \<le> u * n + v \<and> u * n + v < src * n + n"
  have "src * n < Suc u * n" using h assms by simp
  then have b: "src < Suc u" by (simp only: mult_less_cancel2)
  have "u * n < Suc src * n" using h by simp
  then have c: "u < Suc src" by (simp only: mult_less_cancel2)
  from b c show "u = src" by simp
next
  assume "u = src" then show "src * n \<le> u * n + v \<and> u * n + v < src * n + n"
    using assms by simp
qed

subsection \<open>Loops whose accesses stay inside the block\<close>

text \<open>With fewer than 65536 vertices no product of two vertex numbers wraps, and a loop
  whose body succeeds at every step is the fold of what the body computes.\<close>

lemma vid_mul_eq:
  assumes "a \<le> 65535" "b \<le> 65535"
  shows "vid_mul a b = a * b"
proof -
  have "a * b \<le> 65535 * 65535" using assms by (rule mult_le_mono)
  then show ?thesis by (simp add: vid_mul_def)
qed

lemma vid_mul_square:
  assumes "n < 65536"
  shows "vid_mul n n = n * n"
  using assms by (intro vid_mul_eq) simp_all

lemma vid_mul_row:
  assumes "n < 65536" "src < n"
  shows "vid_mul src n = src * n"
  using assms by (intro vid_mul_eq) simp_all

lemma for_loop_fold:
  assumes "\<And>j s. j \<in> set js \<Longrightarrow> I s \<Longrightarrow> body j s = Some (f j s) \<and> I (f j s)" "I s"
  shows "for_loop js body s = Some (fold f js s) \<and> I (fold f js s)"
  using assms
proof (induction js arbitrary: s)
  case Nil
  then show ?case by simp
next
  case (Cons j js)
  have b: "body j s = Some (f j s)" "I (f j s)" using Cons.prems by simp_all
  have "for_loop js body (f j s) = Some (fold f js (f j s)) \<and> I (fold f js (f j s))"
    using Cons.prems(1) b(2) by (intro Cons.IH) simp_all
  then show ?case using b(1) by simp
qed

lemma for_loop_first_None:
  assumes "0 < n" "body 0 s = None"
  shows "for_loop [0..<n] body s = None"
  using assms by (simp add: upt_conv_Cons)

lemma store_in_range: "i < length d \<Longrightarrow> store i x d = Some (d[i := x])"
  by (simp add: store_def)

lemma row_writes_in_range:
  fixes d :: "'w list"
  assumes "length d = n * n" "src < n"
  shows "for_loop [0..<n] (\<lambda>dest. store (src * n + dest) x) d
           = Some (fold (\<lambda>dest d. d[src * n + dest := x]) [0..<n] d)"
proof -
  have "for_loop [0..<n] (\<lambda>dest. store (src * n + dest) x) d
          = Some (fold (\<lambda>dest d. d[src * n + dest := x]) [0..<n] d) \<and>
        length (fold (\<lambda>dest d. d[src * n + dest := x]) [0..<n] d) = n * n"
  proof (rule for_loop_fold [where I = "\<lambda>s. length s = n * n"])
    fix j and s :: "'w list" assume "j \<in> set [0..<n]" "length s = n * n"
    then show "store (src * n + j) x s = Some (s[src * n + j := x]) \<and>
               length (s[src * n + j := x]) = n * n"
      using cell_less [OF assms(2), of j] by (simp add: store_in_range)
  qed (rule assms(1))
  then show ?thesis by simp
qed

subsection \<open>The edgeless matrix\<close>

lemma length_edgeless_row [simp]: "length (edgeless_row_in wmax n src d) = length d"
  by (simp add: edgeless_row_in_def)

lemma nth_edgeless_row:
  assumes "u < n" "v < n" "src < n" "length d = n * n"
  shows "edgeless_row_in wmax n src d ! (u * n + v) =
           (if u = src then (if v = u then 0 else wmax) else d ! (u * n + v))"
proof -
  have i: "u * n + v < length d" using assms cell_less by simp
  show ?thesis
    using assms i
    by (auto simp: edgeless_row_in_def nth_list_update nth_fold_write cell_eq_iff row_range_iff)
qed

lemma length_fold_edgeless [simp]:
  "length (fold (edgeless_row_in wmax n) srcs d) = length d"
  by (induction srcs arbitrary: d) auto

lemma nth_fold_edgeless:
  assumes "u < n" "v < n" "k \<le> n" "length d = n * n"
  shows "fold (edgeless_row_in wmax n) [0..<k] d ! (u * n + v) =
           (if u < k then (if v = u then 0 else wmax) else d ! (u * n + v))"
  using assms(3)
proof (induction k)
  case 0
  then show ?case by simp
next
  case (Suc k)
  then show ?case using assms(1,2,4)
    by (auto simp: nth_edgeless_row less_Suc_eq)
qed

lemma edgeless_row_in_range:
  assumes "n < 65536" "length d = n * n" "src < n"
  shows "edgeless_row wmax n src d = Some (edgeless_row_in wmax n src d)"
proof -
  let ?d1 = "fold (\<lambda>dest d. d[src * n + dest := wmax]) [0..<n] d"
  have "src * n + src < length ?d1" using cell_less [OF assms(3,3)] assms(2) by simp
  then have "store (src * n + src) 0 ?d1 = Some (?d1[src * n + src := 0])"
    by (rule store_in_range)
  then show ?thesis
    using row_writes_in_range [OF assms(2,3), of wmax]
    by (simp add: edgeless_row_def edgeless_row_in_def Let_def vid_mul_row [OF assms(1,3)])
qed

lemma edgeless_rows_in_range:
  fixes d :: "('w::zero) list"
  assumes "n < 65536" "length d = n * n"
  shows "for_loop [0..<n] (edgeless_row wmax n) d
           = Some (fold (edgeless_row_in wmax n) [0..<n] d)"
proof -
  have "for_loop [0..<n] (edgeless_row wmax n) d
          = Some (fold (edgeless_row_in wmax n) [0..<n] d) \<and>
        length (fold (edgeless_row_in wmax n) [0..<n] d) = n * n"
  proof (rule for_loop_fold [where I = "\<lambda>s. length s = n * n"])
    fix j and s :: "'w list" assume "j \<in> set [0..<n]" "length s = n * n"
    then show "edgeless_row wmax n j s = Some (edgeless_row_in wmax n j s) \<and>
               length (edgeless_row_in wmax n j s) = n * n"
      using edgeless_row_in_range [OF assms(1), of s j wmax] by simp
  qed (rule assms(2))
  then show ?thesis by simp
qed

subsection \<open>\<^verbatim>\<open>check_special_cases\<close>, branch by branch\<close>

lemma check_special_cases_failure:
  "check_special_cases wmax env graph p0 = Return (FAILURE, r, f) \<Longrightarrow> r = None \<and> f"
  by (auto simp: check_special_cases_def Let_def split: option.splits if_splits)

lemma check_special_cases_unfinished:
  "check_special_cases wmax env graph p0 = Return (e, r, False) \<Longrightarrow> e = SUCCESS"
  by (auto simp: check_special_cases_def Let_def split: option.splits if_splits)

lemma check_special_cases_unweighted:
  "\<not> weighted g \<Longrightarrow> check_special_cases wmax env (Some g) p0 = Return (FAILURE, None, True)"
  by (simp add: check_special_cases_def)

lemma check_special_cases_single:
  assumes "weighted g" "vertex_count g = 1" "malloc_ok env"
  shows "check_special_cases wmax env (Some g) p0 = Return (SUCCESS, Some [0], True)"
  using assms by (simp add: check_special_cases_def totem_malloc_def)

lemma check_special_cases_edgeless:
  assumes "weighted g" "1 < vertex_count g" "vertex_count g < 65536" "edge_count g = 0"
    "malloc_ok env"
  shows "check_special_cases wmax env (Some g) p0 =
           Return (SUCCESS,
             Some (fold (edgeless_row_in wmax (vertex_count g)) [0..<vertex_count g]
                     (map (malloc_junk env) [0..<vertex_count g * vertex_count g])), True)"
proof -
  let ?n = "vertex_count g"
  let ?j = "map (malloc_junk env) [0..<?n * ?n]"
  have m: "totem_malloc env (vid_mul ?n ?n) = Some ?j"
    using assms(5) by (simp add: totem_malloc_def vid_mul_square [OF assms(3)])
  have "for_loop [0..<?n] (edgeless_row wmax ?n) ?j
          = Some (fold (edgeless_row_in wmax ?n) [0..<?n] ?j)"
    using assms(3) by (rule edgeless_rows_in_range) simp
  then show ?thesis
    using assms(1,2,4) m by (simp add: check_special_cases_def Let_def)
qed

text \<open>At 65536 vertices the product \<^verbatim>\<open>v_count * v_count\<close> is 0 in \<^verbatim>\<open>vid_t\<close>: the block
  that is requested has no entry, and the first assignment of the first row is outside
  it.\<close>

lemma edgeless_row_wraps: "edgeless_row wmax 65536 0 [] = None"
  by (simp add: edgeless_row_def vid_mul_def store_def for_loop_first_None)

lemma check_special_cases_wraps:
  "check_special_cases wmax env_no_device (Some edgeless65536) p0 = Undefined"
  by (simp add: check_special_cases_def edgeless65536_def env_no_device_def totem_malloc_def
        vid_mul_def edgeless_row_wraps for_loop_first_None)

text \<open>
  C6, as stated, fails in two places. \<^verbatim>\<open>check_special_cases\<close> tests
  \<^verbatim>\<open>!graph->weighted\<close> before it looks at the edge count, so an edgeless graph whose
  \<open>weighted\<close> flag is false gets \<^verbatim>\<open>FAILURE\<close> and a \<^verbatim>\<open>NULL\<close> matrix, although its
  allocation would have succeeded. And the size of the matrix is computed in \<^verbatim>\<open>vid_t\<close>:
  for a weighted edgeless graph of 65536 vertices the request is for no entry at all,
  and the run assigns outside the block instead of returning a matrix.
\<close>

theorem apsp_edgeless_failures:
  "vertex_count (edgeless3 False) = 3 \<and> edge_count (edgeless3 False) = 0 \<and>
   malloc_ok env_no_device \<and>
   apsp_cpu 100 env_no_device (Some (edgeless3 False)) None = Return (FAILURE, None) \<and>
   apsp_gpu 100 env_no_device (Some (edgeless3 False)) None = Some (Return (FAILURE, None)) \<and>
   weighted edgeless65536 \<and> vertex_count edgeless65536 = 65536 \<and>
   edge_count edgeless65536 = 0 \<and>
   apsp_cpu 100 env_no_device (Some edgeless65536) None = Undefined \<and>
   apsp_gpu 100 env_no_device (Some edgeless65536) None = Some Undefined"
proof -
  have a: "vertex_count (edgeless3 False) = 3 \<and> edge_count (edgeless3 False) = 0 \<and>
      malloc_ok env_no_device \<and>
      apsp_cpu 100 env_no_device (Some (edgeless3 False)) None = Return (FAILURE, None) \<and>
      apsp_gpu 100 env_no_device (Some (edgeless3 False)) None = Some (Return (FAILURE, None))"
    by (simp add: apsp_cpu_def apsp_gpu_def check_special_cases_def edgeless3_def
          env_no_device_def)
  have b: "weighted edgeless65536 \<and> vertex_count edgeless65536 = 65536 \<and>
      edge_count edgeless65536 = 0"
    by (simp add: edgeless65536_def)
  have c: "apsp_cpu 100 env_no_device (Some edgeless65536) None = Undefined \<and>
      apsp_gpu 100 env_no_device (Some edgeless65536) None = Some Undefined"
    by (simp add: apsp_cpu_def apsp_gpu_def check_special_cases_wraps)
  from a b c show ?thesis by simp
qed

text \<open>
  C6, amended: for every \<^emph>\<open>weighted\<close> graph with \<open>N \<ge> 1\<close> vertices, \<open>N < 65536\<close> (so that
  \<open>N * N\<close> fits a \<^verbatim>\<open>vid_t\<close>), and 0 edges, when the host allocation succeeds,
  \<^verbatim>\<open>apsp_cpu\<close> and \<^verbatim>\<open>apsp_gpu\<close> return \<^verbatim>\<open>SUCCESS\<close> with an \<open>N\<close> by \<open>N\<close> matrix holding
  0 on the diagonal and \<^verbatim>\<open>WEIGHT_MAX\<close> elsewhere. The result is the one
  \<^verbatim>\<open>check_special_cases\<close> reports as finished, whatever the device would do: the
  environment is arbitrary, so it holds also where every device call fails.
\<close>

theorem apsp_edgeless_weighted:
  assumes "weighted g" "1 \<le> vertex_count g" "vertex_count g < 65536" "edge_count g = 0"
    "malloc_ok env"
  shows "\<exists>d. check_special_cases wmax env (Some g) p0 = Return (SUCCESS, Some d, True) \<and>
             apsp_cpu wmax env (Some g) p0 = Return (SUCCESS, Some d) \<and>
             apsp_gpu wmax env (Some g) p0 = Some (Return (SUCCESS, Some d)) \<and>
             length d = vertex_count g * vertex_count g \<and>
             (\<forall>u < vertex_count g. \<forall>v < vertex_count g.
                d ! (u * vertex_count g + v) = (if u = v then 0 else wmax))"
proof (cases "vertex_count g = 1")
  case True
  with assms show ?thesis
    by (simp add: apsp_cpu_def apsp_gpu_def check_special_cases_single)
next
  case False
  with assms have n: "1 < vertex_count g" by simp
  let ?n = "vertex_count g"
  let ?d = "fold (edgeless_row_in wmax ?n) [0..<?n] (map (malloc_junk env) [0..<?n * ?n])"
  have c: "check_special_cases wmax env (Some g) p0 = Return (SUCCESS, Some ?d, True)"
    using assms(1) n assms(3,4,5) by (rule check_special_cases_edgeless)
  have cells: "\<forall>u < ?n. \<forall>v < ?n. ?d ! (u * ?n + v) = (if u = v then 0 else wmax)"
    by (auto simp: nth_fold_edgeless)
  have "length ?d = ?n * ?n" by simp
  with c cells show ?thesis
    by (simp add: apsp_cpu_def apsp_gpu_def)
qed

theorem apsp_edgeless_weighted_witness:
  "weighted (edgeless3 True) \<and> 1 \<le> vertex_count (edgeless3 True) \<and>
   vertex_count (edgeless3 True) < 65536 \<and>
   edge_count (edgeless3 True) = 0 \<and> malloc_ok env_no_device \<and>
   (\<exists>d. apsp_cpu 100 env_no_device (Some (edgeless3 True)) None = Return (SUCCESS, Some d) \<and>
        apsp_gpu 100 env_no_device (Some (edgeless3 True)) None
          = Some (Return (SUCCESS, Some d)) \<and>
        length d = 9 \<and> d ! 0 = 0 \<and> d ! 1 = 100 \<and> d ! 5 = 100 \<and> d ! 8 = 0)"
proof -
  have h: "weighted (edgeless3 True)" "1 \<le> vertex_count (edgeless3 True)"
    "vertex_count (edgeless3 True) < 65536"
    "edge_count (edgeless3 True) = 0" "malloc_ok env_no_device"
    by (simp_all add: edgeless3_def env_no_device_def)
  from apsp_edgeless_weighted [OF h, of 100 None]
  obtain d where d:
    "apsp_cpu 100 env_no_device (Some (edgeless3 True)) None = Return (SUCCESS, Some d)"
    "apsp_gpu 100 env_no_device (Some (edgeless3 True)) None = Some (Return (SUCCESS, Some d))"
    "length d = vertex_count (edgeless3 True) * vertex_count (edgeless3 True)"
    "\<forall>u < vertex_count (edgeless3 True). \<forall>v < vertex_count (edgeless3 True).
        d ! (u * vertex_count (edgeless3 True) + v) = (if u = v then 0 else 100)"
    by blast
  have n: "vertex_count (edgeless3 True) = 3" by (simp add: edgeless3_def)
  have cells: "d ! (u * 3 + v) = (if u = v then 0 else 100)" if "u < 3" "v < 3" for u v
    using d(4) that unfolding n by blast
  have "d ! 0 = 0 \<and> d ! 1 = 100 \<and> d ! 5 = 100 \<and> d ! 8 = 0"
    using cells [of 0 0] cells [of 0 1] cells [of 1 2] cells [of 2 2] by simp
  with h d(1,2,3) n show ?thesis by auto
qed

text \<open>
  C7, as stated, fails for the same reason: a single-vertex graph whose \<open>weighted\<close> flag
  is false gets \<^verbatim>\<open>FAILURE\<close> and \<^verbatim>\<open>NULL\<close>.
\<close>

theorem apsp_single_unweighted_fails:
  "vertex_count (single1 False) = 1 \<and> malloc_ok (env_fail_at 99) \<and>
   apsp_cpu 100 (env_fail_at 99) (Some (single1 False)) None = Return (FAILURE, None) \<and>
   apsp_gpu 100 (env_fail_at 99) (Some (single1 False)) None = Some (Return (FAILURE, None))"
  by (simp add: apsp_cpu_def apsp_gpu_def check_special_cases_def single1_def env_fail_at_def)

text \<open>
  C7, amended: for every \<^emph>\<open>weighted\<close> graph with exactly 1 vertex, when the host
  allocation succeeds, \<^verbatim>\<open>apsp_cpu\<close> and \<^verbatim>\<open>apsp_gpu\<close> return \<^verbatim>\<open>SUCCESS\<close> with the
  single entry 0, which is the finished result of \<^verbatim>\<open>check_special_cases\<close>; the device
  part of the environment plays no role.
\<close>

theorem apsp_single_weighted:
  assumes "weighted g" "vertex_count g = 1" "malloc_ok env"
  shows "check_special_cases wmax env (Some g) p0 = Return (SUCCESS, Some [0], True) \<and>
         apsp_cpu wmax env (Some g) p0 = Return (SUCCESS, Some [0]) \<and>
         apsp_gpu wmax env (Some g) p0 = Some (Return (SUCCESS, Some [0]))"
  using assms by (simp add: apsp_cpu_def apsp_gpu_def check_special_cases_single)

theorem apsp_single_weighted_witness:
  "weighted (single1 True) \<and> vertex_count (single1 True) = 1 \<and> malloc_ok env_no_device \<and>
   apsp_cpu 100 env_no_device (Some (single1 True)) (Some [1, 2]) = Return (SUCCESS, Some [0]) \<and>
   apsp_gpu 100 env_no_device (Some (single1 True)) (Some [1, 2])
     = Some (Return (SUCCESS, Some [0]))"
proof -
  have h: "weighted (single1 True)" "vertex_count (single1 True) = 1" "malloc_ok env_no_device"
    by (simp_all add: single1_def env_no_device_def)
  from apsp_single_weighted [OF h, of 100 "Some [1, 2]"] h show ?thesis by simp
qed

text \<open>
  C8: whenever \<^verbatim>\<open>apsp_cpu\<close> or \<^verbatim>\<open>apsp_gpu\<close> returns \<^verbatim>\<open>FAILURE\<close>, the output pointer
  is \<^verbatim>\<open>NULL\<close>, whatever it held before the call and however far the run had got.
\<close>

theorem apsp_failure_output_null:
  "(apsp_cpu wmax env graph p0 = Return (FAILURE, r) \<longrightarrow> r = None) \<and>
   (apsp_gpu wmax env graph p0 = Some (Return (FAILURE, r)) \<longrightarrow> r = None)"
  by (auto simp: apsp_cpu_def apsp_gpu_def Let_def dest: check_special_cases_failure
       split: run.splits option.splits if_splits prod.splits error_t.splits)

text \<open>The witness: the device call that copies the second row back (call number 20)
  fails, after the first row has reached the host matrix; and the host entry point on a
  \<^verbatim>\<open>NULL\<close> graph.\<close>

theorem apsp_failure_output_null_witness:
  "apsp_gpu 100 (env_fail_at 20) (Some path3) (Some [1, 2]) = Some (Return (FAILURE, None)) \<and>
   apsp_cpu 100 (env_fail_at 20) None (Some [1, 2]) = Return (FAILURE, None)"
proof -
  have "\<exists>r. apsp_gpu 100 (env_fail_at 20) (Some path3) (Some [1, 2])
              = Some (Return (FAILURE, r))"
    by (simp add: apsp_gpu_def check_special_cases_def path3_def env_fail_at_def
          totem_malloc_def initialize_gpu_def initialize_source_gpu_def chk_def
          sssp_loop.simps Let_def upt_rec copy_row_def store_def vid_mul_def)
  then obtain r where g:
    "apsp_gpu 100 (env_fail_at 20) (Some path3) (Some [1, 2]) = Some (Return (FAILURE, r))"
    by blast
  have "\<exists>r. apsp_cpu 100 (env_fail_at 20) None (Some [1, 2]) = Return (FAILURE, r)"
    by (simp add: apsp_cpu_def check_special_cases_def)
  then obtain r' where c:
    "apsp_cpu 100 (env_fail_at 20) None (Some [1, 2]) = Return (FAILURE, r')"
    by blast
  from apsp_failure_output_null [of 100 "env_fail_at 20" "Some path3" "Some [1, 2]" r] g
  have "r = None" by blast
  moreover
  from apsp_failure_output_null [of 100 "env_fail_at 20" None "Some [1, 2]" r'] c
  have "r' = None" by blast
  ultimately show ?thesis using g c by simp
qed

text \<open>
  C9: a graph whose \<open>weighted\<close> flag is false makes \<^verbatim>\<open>apsp_cpu\<close> and \<^verbatim>\<open>apsp_gpu\<close>
  return \<^verbatim>\<open>FAILURE\<close> with a \<^verbatim>\<open>NULL\<close> output, whatever its vertex and edge counts: the
  test comes first in \<^verbatim>\<open>check_special_cases\<close>.
\<close>

theorem apsp_unweighted_fails:
  "\<not> weighted g \<Longrightarrow>
     apsp_cpu wmax env (Some g) p0 = Return (FAILURE, None) \<and>
     apsp_gpu wmax env (Some g) p0 = Some (Return (FAILURE, None))"
  by (simp add: apsp_cpu_def apsp_gpu_def check_special_cases_unweighted)

theorem apsp_unweighted_fails_witness:
  "\<not> weighted (single1 False) \<and> \<not> weighted (edgeless3 False) \<and>
   apsp_cpu 100 (env_fail_at 99) (Some (single1 False)) (Some [1, 2]) = Return (FAILURE, None) \<and>
   apsp_gpu 100 (env_fail_at 99) (Some (single1 False)) (Some [1, 2])
     = Some (Return (FAILURE, None)) \<and>
   apsp_cpu 100 (env_fail_at 99) (Some (edgeless3 False)) (Some [1, 2])
     = Return (FAILURE, None) \<and>
   apsp_gpu 100 (env_fail_at 99) (Some (edgeless3 False)) (Some [1, 2])
     = Some (Return (FAILURE, None))"
  using apsp_unweighted_fails [of "single1 False" 100 "env_fail_at 99" "Some [1, 2]"]
        apsp_unweighted_fails [of "edgeless3 False" 100 "env_fail_at 99" "Some [1, 2]"]
  by (simp add: single1_def edgeless3_def)

section \<open>\<^verbatim>\<open>frontier_update_bitmap\<close>\<close>

subsection \<open>The difference and the copy, word by word\<close>

lemma length_bitmap_diff_copy_word [simp]:
  "length (bitmap_diff_copy_word cur diff copy w h x) = length (h x)"
  by (simp add: bitmap_diff_copy_word_def Let_def)

lemma bitmap_diff_copy_word_other:
  "x \<noteq> diff \<Longrightarrow> x \<noteq> copy \<Longrightarrow> bitmap_diff_copy_word cur diff copy w h x = h x"
  by (simp add: bitmap_diff_copy_word_def Let_def)

lemma bitmap_diff_copy_word_diff:
  "diff \<noteq> copy \<Longrightarrow>
   bitmap_diff_copy_word cur diff copy w h diff = (h diff)[w := h cur ! w AND NOT (h diff ! w)]"
  by (simp add: bitmap_diff_copy_word_def Let_def)

lemma bitmap_diff_copy_word_copy:
  "diff \<noteq> copy \<Longrightarrow>
   bitmap_diff_copy_word cur diff copy w h copy = (h copy)[w := h cur ! w]"
  by (simp add: bitmap_diff_copy_word_def Let_def)

lemma bitmap_diff_copy_fold:
  assumes "cur \<noteq> diff" "cur \<noteq> copy" "diff \<noteq> copy"
  shows "(\<forall>x. length (fold (bitmap_diff_copy_word cur diff copy) [0..<k] h x) = length (h x)) \<and>
         (\<forall>x. x \<noteq> diff \<and> x \<noteq> copy \<longrightarrow>
              fold (bitmap_diff_copy_word cur diff copy) [0..<k] h x = h x) \<and>
         (\<forall>w < length (h diff).
              fold (bitmap_diff_copy_word cur diff copy) [0..<k] h diff ! w =
                (if w < k then h cur ! w AND NOT (h diff ! w) else h diff ! w)) \<and>
         (\<forall>w < length (h copy).
              fold (bitmap_diff_copy_word cur diff copy) [0..<k] h copy ! w =
                (if w < k then h cur ! w else h copy ! w))"
proof (induction k)
  case 0
  show ?case by simp
next
  case (Suc k)
  let ?hk = "fold (bitmap_diff_copy_word cur diff copy) [0..<k] h"
  have step: "fold (bitmap_diff_copy_word cur diff copy) [0..<Suc k] h
                = bitmap_diff_copy_word cur diff copy k ?hk"
    by simp
  have cur: "?hk cur = h cur" using Suc assms by simp
  show ?case
    unfolding step
    using Suc assms cur
    by (auto simp: bitmap_diff_copy_word_other bitmap_diff_copy_word_diff
          bitmap_diff_copy_word_copy nth_list_update less_Suc_eq)
qed

lemma bitmap_diff_copy_effect:
  assumes "cur \<noteq> diff" "cur \<noteq> copy" "diff \<noteq> copy"
    and "length (h cur) = bitmap_bits_to_words n"
    and "length (h diff) = bitmap_bits_to_words n"
    and "length (h copy) = bitmap_bits_to_words n"
  shows "bitmap_diff_copy cur diff copy n h cur = h cur"
    and "bitmap_diff_copy cur diff copy n h copy = h cur"
    and "bitmap_diff_copy cur diff copy n h diff = map2 (\<lambda>c d. c AND NOT d) (h cur) (h diff)"
    and "x \<noteq> diff \<Longrightarrow> x \<noteq> copy \<Longrightarrow> bitmap_diff_copy cur diff copy n h x = h x"
proof -
  note f = bitmap_diff_copy_fold [OF assms(1-3), of "bitmap_bits_to_words n" h]
  show "bitmap_diff_copy cur diff copy n h cur = h cur"
    using f assms(1,2) by (simp add: bitmap_diff_copy_def)
  show "bitmap_diff_copy cur diff copy n h copy = h cur"
    using f assms(4,6) by (intro nth_equalityI) (simp_all add: bitmap_diff_copy_def)
  show "bitmap_diff_copy cur diff copy n h diff = map2 (\<lambda>c d. c AND NOT d) (h cur) (h diff)"
    using f assms(4,5) by (intro nth_equalityI) (simp_all add: bitmap_diff_copy_def)
  show "x \<noteq> diff \<Longrightarrow> x \<noteq> copy \<Longrightarrow> bitmap_diff_copy cur diff copy n h x = h x"
    using f by (simp add: bitmap_diff_copy_def)
qed

lemma map2_and_not_self: "map2 (\<lambda>c d. c AND NOT d) xs xs = replicate (length xs) (0::32 word)"
  by (induction xs) auto

lemma bitmap_bit_zero: "v < 32 * n \<Longrightarrow> \<not> bitmap_bit (replicate n 0) v"
  by (simp add: bitmap_bit_def bitmap_is_set_def)

lemma len_le_words: "n \<le> 32 * bitmap_bits_to_words n"
  by (simp add: bitmap_bits_to_words_def)

text \<open>
  C2: for a frontier state with two distinct bitmap buffers and a visited bitmap in a
  third one, all of the length of \<open>len\<close> bits, each call of \<^verbatim>\<open>frontier_update_bitmap\<close>
  (host or device) exchanges the two pointers, leaves \<open>visited\<close> as it was and makes the
  new \<open>current\<close> the words \<open>visited AND NOT\<close> the prior snapshot, which is what the
  buffer that was \<open>visited_last\<close> held; after a second call with the same \<open>visited\<close>
  every word, hence every bit, of \<open>current\<close> is zero.
\<close>

theorem frontier_update_bitmap_twice:
  assumes "current s \<noteq> visited_last s" "visited \<noteq> current s" "visited \<noteq> visited_last s"
    and "length (h (current s)) = bitmap_bits_to_words (len s)"
    and "length (h (visited_last s)) = bitmap_bits_to_words (len s)"
    and "length (h visited) = bitmap_bits_to_words (len s)"
    and "upd = frontier_update_bitmap_cpu \<or> upd = frontier_update_bitmap_gpu"
  shows "case upd s visited h of (s1, h1) \<Rightarrow>
           case upd s1 visited h1 of (s2, h2) \<Rightarrow>
             current s1 = visited_last s \<and> visited_last s1 = current s \<and>
             current s2 = visited_last s1 \<and> visited_last s2 = current s1 \<and>
             h1 visited = h visited \<and> h2 visited = h visited \<and>
             h1 (current s1) = map2 (\<lambda>c d. c AND NOT d) (h visited) (h (visited_last s)) \<and>
             h2 (current s2) = map2 (\<lambda>c d. c AND NOT d) (h visited) (h1 (visited_last s1)) \<and>
             h2 (current s2) = replicate (bitmap_bits_to_words (len s)) 0 \<and>
             (\<forall>v < len s. \<not> bitmap_bit (h2 (current s2)) v)"
proof -
  let ?W = "bitmap_bits_to_words (len s)"
  let ?h1 = "bitmap_diff_copy visited (visited_last s) (current s) (len s) h"
  let ?h2 = "bitmap_diff_copy visited (current s) (visited_last s) (len s) ?h1"
  note e1 = bitmap_diff_copy_effect [of visited "visited_last s" "current s" h "len s",
      OF assms(3) assms(2) assms(1) [symmetric] assms(6) assms(5) assms(4)]
  have l1: "length (?h1 visited) = ?W" "length (?h1 (current s)) = ?W"
    "length (?h1 (visited_last s)) = ?W"
    using e1(1,2,3) assms(4,5,6) by simp_all
  note e2 = bitmap_diff_copy_effect [of visited "current s" "visited_last s" ?h1 "len s",
      OF assms(2) assms(3) assms(1) l1]
  have z: "?h2 (current s) = replicate ?W 0"
    using e2(3) e1(1,2) assms(6) by (simp add: map2_and_not_self)
  have bits: "\<forall>v < len s. \<not> bitmap_bit (?h2 (current s)) v"
    unfolding z using len_le_words [of "len s"] by (auto intro!: bitmap_bit_zero)
  have pair1: "frontier_update_bitmap_cpu s visited h
                 = (s\<lparr>current := visited_last s, visited_last := current s\<rparr>, ?h1)"
              "frontier_update_bitmap_gpu s visited h
                 = (s\<lparr>current := visited_last s, visited_last := current s\<rparr>, ?h1)"
    by (simp_all add: frontier_update_bitmap_cpu_def frontier_update_bitmap_gpu_def Let_def)
  have pair2: "frontier_update_bitmap_cpu (s\<lparr>current := visited_last s, visited_last := current s\<rparr>)
                  visited ?h1
                 = (s\<lparr>current := current s, visited_last := visited_last s\<rparr>, ?h2)"
              "frontier_update_bitmap_gpu (s\<lparr>current := visited_last s, visited_last := current s\<rparr>)
                  visited ?h1
                 = (s\<lparr>current := current s, visited_last := visited_last s\<rparr>, ?h2)"
    by (simp_all add: frontier_update_bitmap_cpu_def frontier_update_bitmap_gpu_def Let_def)
  from assms(7) show ?thesis
  proof
    assume "upd = frontier_update_bitmap_cpu"
    then show ?thesis
      using pair1(1) pair2(1) e1 e2 z bits by simp
  next
    assume "upd = frontier_update_bitmap_gpu"
    then show ?thesis
      using pair1(2) pair2(2) e1 e2 z bits by simp
  qed
qed

theorem frontier_update_bitmap_twice_witness:
  "current state70 \<noteq> visited_last state70 \<and> 3 \<noteq> current state70 \<and>
   3 \<noteq> visited_last state70 \<and>
   length (heap70 (current state70)) = bitmap_bits_to_words (len state70) \<and>
   length (heap70 (visited_last state70)) = bitmap_bits_to_words (len state70) \<and>
   length (heap70 3) = bitmap_bits_to_words (len state70) \<and>
   (case frontier_update_bitmap_cpu state70 3 heap70 of (s1, h1) \<Rightarrow>
      case frontier_update_bitmap_cpu s1 3 h1 of (s2, h2) \<Rightarrow>
        current s1 = 2 \<and> visited_last s1 = 1 \<and> h1 (current s1) = [7, 1, 3] \<and>
        current s2 = 1 \<and> h2 3 = [7, 1, 3] \<and> h2 (current s2) = [0, 0, 0])"
proof -
  have h: "current state70 \<noteq> visited_last state70" "3 \<noteq> current state70"
    "3 \<noteq> visited_last state70"
    "length (heap70 (current state70)) = bitmap_bits_to_words (len state70)"
    "length (heap70 (visited_last state70)) = bitmap_bits_to_words (len state70)"
    "length (heap70 3) = bitmap_bits_to_words (len state70)"
    by (simp_all add: state70_def heap70_def bitmap_bits_to_words_def)
  have v: "current state70 = 1" "visited_last state70 = 2" "heap70 3 = [7, 1, 3]"
    "heap70 2 = [0, 0, 0]" "bitmap_bits_to_words (len state70) = 3"
    by (simp_all add: state70_def heap70_def bitmap_bits_to_words_def)
  from frontier_update_bitmap_twice [OF h, of frontier_update_bitmap_cpu]
  show ?thesis
    using h by (auto simp: v replicate_num split: prod.splits)
qed

section \<open>\<^verbatim>\<open>frontier_build_kernel\<close>\<close>

subsection \<open>The warp scan\<close>

text \<open>After the step with distance \<open>w\<close>, slot \<open>l\<close> holds the sum of the \<open>2 * w\<close> inputs that
  end at \<open>l\<close>; after the five steps, the sum of all inputs up to \<open>l\<close>.\<close>

lemma length_scan_step [simp]: "length (scan_step d p) = length p"
  by (simp add: scan_step_def)

lemma nth_scan_step:
  "l < length p \<Longrightarrow> scan_step d p ! l = (if l \<ge> d then p ! (l - d) + p ! l else p ! l)"
  by (simp add: scan_step_def)

lemma scan_step_window:
  assumes "\<forall>l < length p. p ! l = sum ((!) xs) {Suc l - w..<Suc l}"
  shows "\<forall>l < length p. scan_step w p ! l = sum ((!) xs) {Suc l - 2 * w..<Suc l}"
proof (intro allI impI)
  fix l assume l: "l < length p"
  have b: "p ! l = sum ((!) xs) {Suc l - w..<Suc l}" using assms l by blast
  show "scan_step w p ! l = sum ((!) xs) {Suc l - 2 * w..<Suc l}"
  proof (cases "l \<ge> w")
    case True
    then have lw: "l - w < length p" using l by simp
    have i1: "Suc (l - w) = Suc l - w" using True by simp
    have i2: "Suc l - w - w = Suc l - 2 * w" by simp
    have "p ! (l - w) = sum ((!) xs) {Suc (l - w) - w..<Suc (l - w)}"
      using assms lw by blast
    then have a: "p ! (l - w) = sum ((!) xs) {Suc l - 2 * w..<Suc l - w}"
      by (simp only: i1 i2)
    have "sum ((!) xs) {Suc l - 2 * w..<Suc l - w} + sum ((!) xs) {Suc l - w..<Suc l}
            = sum ((!) xs) {Suc l - 2 * w..<Suc l}"
      by (rule sum.atLeastLessThan_concat) simp_all
    then have "p ! (l - w) + p ! l = sum ((!) xs) {Suc l - 2 * w..<Suc l}"
      by (simp only: a b)
    with True l show ?thesis by (simp only: nth_scan_step if_True)
  next
    case False
    then have z: "Suc l - w = 0" "Suc l - 2 * w = 0" by simp_all
    have "scan_step w p ! l = p ! l" using l False by (simp only: nth_scan_step if_False)
    with b show ?thesis by (simp only: z)
  qed
qed

lemma scan_warp_exclusive:
  assumes "length ptr = 32" "lane < 32"
  shows "scan_warp True ptr lane = sum ((!) ptr) {0..<lane}"
proof -
  let ?p1 = "scan_step 1 ptr"
  let ?p2 = "scan_step 2 ?p1"
  let ?p4 = "scan_step 4 ?p2"
  let ?p8 = "scan_step 8 ?p4"
  let ?p16 = "scan_step 16 ?p8"
  have w1: "\<forall>l < length ptr. ptr ! l = sum ((!) ptr) {Suc l - 1..<Suc l}" by simp
  have w2: "\<forall>l < length ?p1. ?p1 ! l = sum ((!) ptr) {Suc l - 2..<Suc l}"
    using scan_step_window [OF w1] by (simp only: length_scan_step mult_1_right)
  have w4: "\<forall>l < length ?p2. ?p2 ! l = sum ((!) ptr) {Suc l - 4..<Suc l}"
    using scan_step_window [OF w2] by (simp only: length_scan_step) simp
  have w8: "\<forall>l < length ?p4. ?p4 ! l = sum ((!) ptr) {Suc l - 8..<Suc l}"
    using scan_step_window [OF w4] by (simp only: length_scan_step) simp
  have w16: "\<forall>l < length ?p8. ?p8 ! l = sum ((!) ptr) {Suc l - 16..<Suc l}"
    using scan_step_window [OF w8] by (simp only: length_scan_step) simp
  have w32: "\<forall>l < length ?p16. ?p16 ! l = sum ((!) ptr) {Suc l - 32..<Suc l}"
    using scan_step_window [OF w16] by (simp only: length_scan_step) simp
  show ?thesis
  proof (cases lane)
    case 0
    then show ?thesis by (simp add: scan_warp_def)
  next
    case (Suc m)
    then have "m < length ?p16" using assms by simp
    with w32 have "?p16 ! m = sum ((!) ptr) {Suc m - 32..<Suc m}" by blast
    moreover have "Suc m - 32 = 0" using Suc assms by simp
    ultimately have "?p16 ! m = sum ((!) ptr) {0..<Suc m}" by (simp only:)
    then show ?thesis using Suc by (simp add: scan_warp_def)
  qed
qed

lemma sum_flags_filter:
  "(\<Sum>j = 0..<n. (if P j then 1 else 0 :: nat)) = length (filter P [0..<n])"
  by (induction n) simp_all

lemma scan_warp_rank:
  assumes "lane < 32"
  shows "scan_warp True (map (\<lambda>lane. if P lane then 1 else 0) [0..<32]) lane
           = length (filter P [0..<lane])"
proof -
  let ?f = "map (\<lambda>lane. if P lane then 1 else 0 :: nat) [0..<32]"
  have "scan_warp True ?f lane = (\<Sum>j = 0..<lane. ?f ! j)"
    using assms scan_warp_exclusive [of ?f lane] by simp
  also have "\<dots> = (\<Sum>j = 0..<lane. (if P j then 1 else 0))"
    using assms by (intro sum.cong) simp_all
  finally show ?thesis by (simp add: sum_flags_filter)
qed

subsection \<open>One warp: its set bits, in lane order, at the reserved offset\<close>

lemma lanes_write:
  "base + length (filter P [0..<n]) \<le> length q \<Longrightarrow>
     fold (\<lambda>lane q. if P lane then q[base + length (filter P [0..<lane]) := g lane] else q)
       [0..<n] q
     = take base q @ map g (filter P [0..<n]) @ drop (base + length (filter P [0..<n])) q"
proof (induction n)
  case 0
  then show ?case by simp
next
  case (Suc n)
  let ?r = "length (filter P [0..<n])"
  let ?F = "map g (filter P [0..<n])"
  show ?case
  proof (cases "P n")
    case False
    with Suc show ?thesis by simp
  next
    case True
    with Suc.prems have k: "base + ?r < length q" by simp
    then have ih: "fold (\<lambda>lane q. if P lane then q[base + length (filter P [0..<lane]) := g lane] else q)
       [0..<n] q = take base q @ ?F @ drop (base + ?r) q"
      using Suc.IH by simp
    have d: "drop (base + ?r) q = q ! (base + ?r) # drop (Suc (base + ?r)) q"
      using k by (simp add: Cons_nth_drop_Suc)
    have "(take base q @ ?F @ drop (base + ?r) q)[base + ?r := g n]
            = take base q @ ?F @ (drop (base + ?r) q)[0 := g n]"
      using k by (simp add: list_update_append)
    also have "\<dots> = take base q @ (?F @ [g n]) @ drop (Suc (base + ?r)) q"
      by (subst d) simp
    finally show ?thesis using True ih by simp
  qed
qed

lemma length_warp_ids: "length (warp_ids cur words v0) \<le> 32"
proof -
  have "length (filter P [0..<32]) \<le> 32" for P :: "nat \<Rightarrow> bool"
    using length_filter_le [of P "[0..<32]"] by simp
  then show ?thesis by (simp add: warp_ids_def)
qed

lemma filter_is_set_zero: "filter (bitmap_is_set 0) xs = []"
  by (induction xs) (simp_all add: bitmap_is_set_def)

lemma build_warp_effect:
  assumes "warpid < length (count_w sh)" "count_l sh + 32 \<le> length (queue_l sh)"
    and ids_def: "ids = warp_ids cur words (b * tpb + 32 * warpid)"
  shows "count_l (build_warp tpb cur words b warpid sh) = count_l sh + length ids"
    and "queue_l (build_warp tpb cur words b warpid sh)
           = take (count_l sh) (queue_l sh) @ ids @ drop (count_l sh + length ids) (queue_l sh)"
    and "length (count_w (build_warp tpb cur words b warpid sh)) = length (count_w sh)"
proof -
  let ?v0 = "b * tpb + 32 * warpid"
  let ?word = "cur ! drop_bit 5 ?v0"
  let ?P = "bitmap_is_set ?word"
  have goal: "count_l (build_warp tpb cur words b warpid sh) = count_l sh + length ids \<and>
    queue_l (build_warp tpb cur words b warpid sh)
           = take (count_l sh) (queue_l sh) @ ids @ drop (count_l sh + length ids) (queue_l sh) \<and>
    length (count_w (build_warp tpb cur words b warpid sh)) = length (count_w sh)"
  proof (cases "drop_bit 5 ?v0 \<ge> words")
    case True
    then show ?thesis by (simp add: build_warp_def ids_def warp_ids_def Let_def)
  next
    case active: False
    show ?thesis
    proof (cases "?word = 0")
      case True
      then show ?thesis
        using active by (simp add: build_warp_def ids_def warp_ids_def Let_def filter_is_set_zero)
    next
      case False
      have ids: "ids = map (\<lambda>lane. ?v0 + lane) (filter ?P [0..<32])"
        using active by (simp add: ids_def warp_ids_def)
      have le: "length (filter ?P [0..<32]) \<le> 32"
        using length_filter_le [of ?P "[0..<32]"] by simp
      have fold_eq:
        "fold (\<lambda>lane q. if ?P lane
                 then q[count_l sh
                        + scan_warp True (map (\<lambda>lane. if ?P lane then 1 else 0) [0..<32]) lane
                          := ?v0 + lane]
                 else q) [0..<32] (queue_l sh)
         = fold (\<lambda>lane q. if ?P lane
                 then q[count_l sh + length (filter ?P [0..<lane]) := ?v0 + lane]
                 else q) [0..<32] (queue_l sh)"
      proof (rule fold_cong)
        fix x assume "x \<in> set [0..<32]"
        then have "x < 32" by simp
        then have "scan_warp True (map (\<lambda>lane. if ?P lane then 1 else 0) [0..<32]) x
                     = length (filter ?P [0..<x])"
          by (rule scan_warp_rank)
        then show "(\<lambda>q. if ?P x
                 then q[count_l sh
                        + scan_warp True (map (\<lambda>lane. if ?P lane then 1 else 0) [0..<32]) x
                          := ?v0 + x]
                 else q) = (\<lambda>q. if ?P x
                 then q[count_l sh + length (filter ?P [0..<x]) := ?v0 + x]
                 else q)"
          by (simp only:)
      qed (rule refl)+
      have w: "fold (\<lambda>lane q. if ?P lane
                 then q[count_l sh + length (filter ?P [0..<lane]) := ?v0 + lane]
                 else q) [0..<32] (queue_l sh)
               = take (count_l sh) (queue_l sh) @ ids
                   @ drop (count_l sh + length ids) (queue_l sh)"
        using lanes_write [of "count_l sh" ?P 32 "queue_l sh" "\<lambda>lane. ?v0 + lane"] le assms(2)
        by (simp add: ids)
      show ?thesis
        using active False assms(1) fold_eq w
        by (simp add: build_warp_def Let_def popc_def ids cong: if_cong)
    qed
  qed
  from goal show "count_l (build_warp tpb cur words b warpid sh) = count_l sh + length ids"
    and "queue_l (build_warp tpb cur words b warpid sh)
           = take (count_l sh) (queue_l sh) @ ids @ drop (count_l sh + length ids) (queue_l sh)"
    and "length (count_w (build_warp tpb cur words b warpid sh)) = length (count_w sh)"
    by simp_all
qed

subsection \<open>One block: the queue holds what its warps appended, in their order\<close>

lemma length_concat_warp_ids:
  "length (concat (map (\<lambda>w. warp_ids cur words (f w)) ws)) \<le> 32 * length ws"
proof (induction ws)
  case Nil
  then show ?case by simp
next
  case (Cons w ws)
  then show ?case using length_warp_ids [of cur words "f w"] by simp
qed

lemma build_warps_fold:
  assumes "\<forall>w \<in> set ws. w < length (count_w sh)"
    and "count_l sh + 32 * length ws \<le> length (queue_l sh)"
    and "C = concat (map (\<lambda>w. warp_ids cur words (b * tpb + 32 * w)) ws)"
  shows "count_l (fold (build_warp tpb cur words b) ws sh) = count_l sh + length C \<and>
         queue_l (fold (build_warp tpb cur words b) ws sh)
           = take (count_l sh) (queue_l sh) @ C @ drop (count_l sh + length C) (queue_l sh) \<and>
         length (count_w (fold (build_warp tpb cur words b) ws sh)) = length (count_w sh)"
  using assms
proof (induction ws arbitrary: sh C)
  case Nil
  then show ?case by simp
next
  case (Cons w ws)
  let ?ids = "warp_ids cur words (b * tpb + 32 * w)"
  let ?C' = "concat (map (\<lambda>w. warp_ids cur words (b * tpb + 32 * w)) ws)"
  let ?sh1 = "build_warp tpb cur words b w sh"
  let ?c = "count_l sh" and ?q = "queue_l sh"
  have w: "w < length (count_w sh)" using Cons.prems(1) by simp
  have room: "?c + 32 \<le> length ?q" using Cons.prems(2) by simp
  note e = build_warp_effect [where cur = cur and words = words and b = b and tpb = tpb, OF w room refl]
  have li: "length ?ids \<le> 32" by (rule length_warp_ids)
  have lq1: "length (queue_l ?sh1) = length ?q"
    using e(2) room li by simp
  have p1: "\<forall>w \<in> set ws. w < length (count_w ?sh1)" using Cons.prems(1) e(3) by simp
  have p2: "count_l ?sh1 + 32 * length ws \<le> length (queue_l ?sh1)"
    using e(1) lq1 li Cons.prems(2) by simp
  note ih = Cons.IH [OF p1 p2 refl]
  have lc: "length ?C' \<le> 32 * length ws" by (rule length_concat_warp_ids)
  have t: "take (count_l ?sh1) (queue_l ?sh1) = take ?c ?q @ ?ids"
    using e(1,2) room li by simp
  have d: "drop (count_l ?sh1 + length ?C') (queue_l ?sh1)
             = drop (?c + length ?ids + length ?C') ?q"
    using e(1,2) room li by (simp add: ac_simps)
  have C: "C = ?ids @ ?C'" using Cons.prems(3) by simp
  show ?case
    using ih t d e(1,3) by (simp add: C add.assoc)
qed

lemma build_block_effect:
  assumes "mset (warp_order l b) = mset [0..<threads_per_block l div 32]"
  shows "count_l (build_block l cur words b) = length (block_ids l cur words b)"
    and "take (length (block_ids l cur words b)) (queue_l (build_block l cur words b))
           = block_ids l cur words b"
    and "length (queue_l (build_block l cur words b)) = threads_per_block l"
proof -
  let ?tpb = "threads_per_block l"
  let ?sh0 = "\<lparr>queue_l = replicate ?tpb (shared_junk l),
               count_w = replicate (?tpb div 32) (shared_junk l), count_l = 0\<rparr>"
  have s: "set (warp_order l b) = set [0..<?tpb div 32]" using assms by (rule mset_eq_setD)
  have n: "length (warp_order l b) = ?tpb div 32"
    using assms mset_eq_length [of "warp_order l b" "[0..<?tpb div 32]"] by simp
  have a1: "\<forall>w \<in> set (warp_order l b). w < length (count_w ?sh0)" using s by simp
  have a2: "count_l ?sh0 + 32 * length (warp_order l b) \<le> length (queue_l ?sh0)"
    using n by simp
  note f = build_warps_fold [where cur = cur and words = words and b = b, OF a1 a2 refl]
  have lb: "length (block_ids l cur words b) \<le> ?tpb"
    using length_concat_warp_ids [of cur words "\<lambda>w. b * ?tpb + 32 * w" "warp_order l b"] n
    by (simp add: block_ids_def)
  show "count_l (build_block l cur words b) = length (block_ids l cur words b)"
    using f by (simp add: build_block_def block_ids_def)
  show "take (length (block_ids l cur words b)) (queue_l (build_block l cur words b))
           = block_ids l cur words b"
    using f by (simp add: build_block_def block_ids_def)
  show "length (queue_l (build_block l cur words b)) = threads_per_block l"
    using f lb by (simp add: build_block_def block_ids_def)
qed

subsection \<open>The ids of a block and of the grid, up to order\<close>

lemma mset_concat_map_perm:
  assumes "mset ws = mset ws'"
  shows "mset (concat (map f ws)) = mset (concat (map f ws'))"
proof -
  have "mset (concat (map f xs)) = sum_mset (image_mset (\<lambda>w. mset (f w)) (mset xs))" for xs
    by (induction xs) simp_all
  then show ?thesis using assms by simp
qed

lemma warp_ids_filter:
  assumes "v0 mod 32 = 0"
  shows "warp_ids cur words v0 = filter (covered_bit cur words) [v0..<v0 + 32]"
proof -
  have u: "[v0..<v0 + 32] = map (\<lambda>lane. v0 + lane) [0..<32]"
    using map_add_upt [of v0 32] by (simp add: add.commute)
  have lane: "(v0 + lane) div 32 = v0 div 32 \<and> (v0 + lane) mod 32 = lane" if "lane < 32" for lane
    using assms that by (auto simp: div_add1_eq mod_add_eq)
  have "filter (covered_bit cur words) (map (\<lambda>lane. v0 + lane) [0..<32])
          = map (\<lambda>lane. v0 + lane) (filter (covered_bit cur words \<circ> (\<lambda>lane. v0 + lane)) [0..<32])"
    by (simp add: filter_map)
  also have "filter (covered_bit cur words \<circ> (\<lambda>lane. v0 + lane)) [0..<32]
          = filter (\<lambda>lane. v0 div 32 < words \<and> bitmap_is_set (cur ! (v0 div 32)) lane) [0..<32]"
    by (rule filter_cong) (auto simp: covered_bit_def bitmap_bit_def lane)
  finally show ?thesis
    by (simp add: warp_ids_def u drop_bit_eq_div)
qed

lemma concat_warp_ids_filter:
  assumes "c mod 32 = 0"
  shows "concat (map (\<lambda>w. warp_ids cur words (c + 32 * w)) [0..<m])
           = filter (covered_bit cur words) [c..<c + 32 * m]"
proof (induction m)
  case 0
  then show ?case by simp
next
  case (Suc m)
  have a: "(c + 32 * m) mod 32 = 0" using assms by (simp add: mod_add_eq)
  have e: "c + 32 * Suc m = c + 32 * m + 32" by simp
  have "[c..<c + 32 * Suc m] = [c..<c + 32 * m] @ [c + 32 * m..<c + 32 * m + 32]"
    unfolding e by (rule upt_add_eq_append) simp
  with Suc warp_ids_filter [OF a, of cur words] show ?case by simp
qed

lemma mset_block_ids:
  assumes "mset (warp_order l b) = mset [0..<threads_per_block l div 32]"
    and "threads_per_block l mod 32 = 0"
  shows "mset (block_ids l cur words b)
           = mset (filter (covered_bit cur words)
                     [b * threads_per_block l..<b * threads_per_block l + threads_per_block l])"
proof -
  let ?tpb = "threads_per_block l"
  have c: "(b * ?tpb) mod 32 = 0" using assms(2) by (simp add: mod_eq_0_iff_dvd)
  have t: "32 * (?tpb div 32) = ?tpb" using assms(2) by (simp add: mod_eq_0_iff_dvd)
  have "mset (block_ids l cur words b)
          = mset (concat (map (\<lambda>w. warp_ids cur words (b * ?tpb + 32 * w)) [0..<?tpb div 32]))"
    unfolding block_ids_def using assms(1) by (rule mset_concat_map_perm)
  also have "\<dots> = mset (filter (covered_bit cur words) [b * ?tpb..<b * ?tpb + 32 * (?tpb div 32)])"
    using concat_warp_ids_filter [OF c] by simp
  finally show ?thesis by (simp only: t)
qed

lemma concat_block_ranges:
  "concat (map (\<lambda>b. filter P [b * t..<b * t + t]) [0..<n]) = filter P [0..<n * t]"
proof (induction n)
  case 0
  then show ?case by simp
next
  case (Suc n)
  have e: "Suc n * t = 0 + n * t + t" by simp
  have "[0..<Suc n * t] = [0..<0 + n * t] @ [0 + n * t..<0 + n * t + t]"
    unfolding e by (rule upt_add_eq_append) simp
  with Suc show ?case by simp
qed

lemma mset_concat_upt_cong:
  assumes "\<forall>b < n. mset (f b) = mset (g b)"
  shows "mset (concat (map f [0..<n])) = mset (concat (map g [0..<n]))"
  using assms by (induction n) simp_all

lemma mset_all_block_ids:
  assumes "\<forall>b < blocks l. mset (warp_order l b) = mset [0..<threads_per_block l div 32]"
    and "threads_per_block l mod 32 = 0"
    and "mset (block_order l) = mset [0..<blocks l]"
  shows "mset (concat (map (block_ids l cur words) (block_order l)))
           = mset (filter (covered_bit cur words) [0..<blocks l * threads_per_block l])"
proof -
  let ?t = "threads_per_block l"
  have "mset (concat (map (block_ids l cur words) (block_order l)))
          = mset (concat (map (block_ids l cur words) [0..<blocks l]))"
    using assms(3) by (rule mset_concat_map_perm)
  also have "\<dots> = mset (concat (map (\<lambda>b. filter (covered_bit cur words) [b * ?t..<b * ?t + ?t])
                                  [0..<blocks l]))"
    using assms(1,2) by (intro mset_concat_upt_cong) (simp add: mset_block_ids)
  finally show ?thesis by (simp only: concat_block_ranges)
qed

subsection \<open>The store into the list\<close>

lemma build_store_effect:
  assumes "count_l sh = n" "n \<le> tpb" "n \<le> length (queue_l sh)"
    and alive: "\<forall>idx < n. drop_bit 5 (b * tpb + idx) < words"
    and room: "index + n \<le> length ls"
  shows "build_store tpb words b sh (index, ls)
           = (index + n, take index ls @ take n (queue_l sh) @ drop (index + n) ls)"
proof -
  let ?c = "\<lambda>idx. drop_bit 5 (b * tpb + idx) < words \<and> idx < n"
  let ?w = "fold (\<lambda>idx ls. if ?c idx then ls[index + idx := queue_l sh ! idx] else ls) [0..<tpb] ls"
  let ?r = "take index ls @ take n (queue_l sh) @ drop (index + n) ls"
  have a0: "0 < n \<longrightarrow> drop_bit 5 (b * tpb) < words"
    using alive by (cases "n = 0") auto
  have "?w = ?r"
  proof (rule nth_equalityI)
    show "length ?w = length ?r" using room assms(3) by simp
  next
    fix i assume "i < length ?w"
    then have i: "i < length ls" by simp
    consider "i < index" | "index \<le> i" "i < index + n" | "index + n \<le> i" by linarith
    then show "?w ! i = ?r ! i"
    proof cases
      case 1
      then show ?thesis using i by (simp add: nth_fold_cond_write nth_append)
    next
      case 2
      then have lt: "i - index < n" by simp
      then have "drop_bit 5 (b * tpb + (i - index)) < words" using alive by blast
      with 2 lt assms(2,3) room i show ?thesis
        by (simp add: nth_fold_cond_write nth_append)
    next
      case 3
      then have "\<not> i - index < n" by simp
      with 3 assms(3) room i show ?thesis
        by (simp add: nth_fold_cond_write nth_append)
    qed
  qed
  with a0 show ?thesis
    using assms(1) by (auto simp: build_store_def Let_def)
qed

lemma length_filter_upt_bound:
  assumes "\<forall>v. P v \<longrightarrow> v < M"
  shows "length (filter P [lo..<hi]) \<le> M - lo"
proof -
  have "set (filter P [lo..<hi]) \<subseteq> {lo..<M}" using assms by auto
  then have "card (set (filter P [lo..<hi])) \<le> card {lo..<M}" by (intro card_mono) simp_all
  moreover have "card (set (filter P [lo..<hi])) = length (filter P [lo..<hi])"
    by (rule distinct_card) simp
  ultimately show ?thesis by simp
qed

lemma covered_bit_less: "covered_bit cur words v \<Longrightarrow> v < 32 * words"
  by (auto simp: covered_bit_def)

lemma block_ids_alive:
  assumes "mset (warp_order l b) = mset [0..<threads_per_block l div 32]"
    and "threads_per_block l mod 32 = 0"
    and "idx < length (block_ids l cur words b)"
  shows "drop_bit 5 (b * threads_per_block l + idx) < words"
proof -
  let ?t = "threads_per_block l"
  have "length (block_ids l cur words b)
          = length (filter (covered_bit cur words) [b * ?t..<b * ?t + ?t])"
    using mset_block_ids [OF assms(1,2), of cur words] by (metis size_mset)
  also have "\<dots> \<le> 32 * words - b * ?t"
    by (rule length_filter_upt_bound) (auto dest: covered_bit_less)
  finally have "b * ?t + idx < 32 * words" using assms(3) by simp
  then show ?thesis by (simp add: drop_bit_eq_div)
qed

lemma length_block_ids_le:
  assumes "mset (warp_order l b) = mset [0..<threads_per_block l div 32]"
  shows "length (block_ids l cur words b) \<le> threads_per_block l"
proof -
  have n: "length (warp_order l b) = threads_per_block l div 32"
    using assms mset_eq_length [of "warp_order l b" "[0..<threads_per_block l div 32]"] by simp
  show ?thesis
    using length_concat_warp_ids [of cur words "\<lambda>w. b * threads_per_block l + 32 * w" "warp_order l b"] n
    by (simp add: block_ids_def)
qed

lemma build_blocks_fold:
  assumes "\<forall>b \<in> set bs. mset (warp_order l b) = mset [0..<threads_per_block l div 32]"
    and "threads_per_block l mod 32 = 0"
    and "D = concat (map (block_ids l cur words) bs)"
    and "c0 + length D \<le> length ls0"
  shows "fold (\<lambda>b. build_store (threads_per_block l) words b (build_block l cur words b)) bs (c0, ls0)
           = (c0 + length D, take c0 ls0 @ D @ drop (c0 + length D) ls0)"
  using assms
proof (induction bs arbitrary: c0 ls0 D)
  case Nil
  then show ?case by simp
next
  case (Cons b bs)
  let ?t = "threads_per_block l"
  let ?ids = "block_ids l cur words b"
  let ?D' = "concat (map (block_ids l cur words) bs)"
  let ?sh = "build_block l cur words b"
  have wo: "mset (warp_order l b) = mset [0..<?t div 32]" using Cons.prems(1) by simp
  note e = build_block_effect [OF wo, of cur words]
  have D: "D = ?ids @ ?D'" using Cons.prems(3) by simp
  have room: "c0 + length ?ids \<le> length ls0" using Cons.prems(4) D by simp
  have alive: "\<forall>idx < length ?ids. drop_bit 5 (b * ?t + idx) < words"
    using block_ids_alive [OF wo Cons.prems(2)] by blast
  have st: "build_store ?t words b ?sh (c0, ls0)
              = (c0 + length ?ids, take c0 ls0 @ ?ids @ drop (c0 + length ?ids) ls0)"
    using build_store_effect [OF e(1) length_block_ids_le [OF wo] _ alive room] e(2,3)
      length_block_ids_le [OF wo, of cur words]
    by simp
  let ?ls1 = "take c0 ls0 @ ?ids @ drop (c0 + length ?ids) ls0"
  have l1: "length ?ls1 = length ls0" using room by simp
  have p: "\<forall>b \<in> set bs. mset (warp_order l b) = mset [0..<?t div 32]"
    using Cons.prems(1) by simp
  have r1: "c0 + length ?ids + length ?D' \<le> length ?ls1"
    using Cons.prems(4) D l1 by simp
  note ih = Cons.IH [OF p Cons.prems(2) refl r1]
  have t: "take (c0 + length ?ids) ?ls1 = take c0 ls0 @ ?ids" using room by simp
  have d: "drop (c0 + length ?ids + length ?D') ?ls1 = drop (c0 + length ?ids + length ?D') ls0"
    using room by (simp add: ac_simps)
  show ?case
    using st ih t d by (simp add: D add.assoc)
qed

subsection \<open>The kernel\<close>

lemma set_bitmap_members: "set (bitmap_members bm n) = {v. v < n \<and> bitmap_bit bm v}"
  by (auto simp: bitmap_members_def)

lemma distinct_bitmap_members: "distinct (bitmap_members bm n)"
  by (simp add: bitmap_members_def)

lemma length_bitmap_members: "length (bitmap_members bm n) = card {v. v < n \<and> bitmap_bit bm v}"
  using distinct_card [OF distinct_bitmap_members, of bm n] by (simp add: set_bitmap_members)

lemma length_bitmap_members_le: "length (bitmap_members bm n) \<le> n"
  using length_filter_le [of "bitmap_bit bm" "[0..<n]"] by (simp add: bitmap_members_def)

lemma words_covered:
  assumes "t mod 32 = 0" "n \<le> B * t"
  shows "32 * bitmap_bits_to_words n \<le> B * t"
proof -
  have "(B * t) mod 32 = 0" using assms(1) by (simp add: mod_eq_0_iff_dvd)
  then obtain q where q: "B * t = 32 * q" by (auto simp: mod_eq_0_iff_dvd)
  with assms(2) have "(n + 31) div 32 \<le> q" by simp
  with q show ?thesis by (simp add: bitmap_bits_to_words_def)
qed

lemma covered_members:
  assumes "bitmap_wf cur n" "32 * bitmap_bits_to_words n \<le> B"
  shows "filter (covered_bit cur (bitmap_bits_to_words n)) [0..<B] = bitmap_members cur n"
proof -
  let ?W = "bitmap_bits_to_words n"
  have n: "n \<le> 32 * ?W" by (simp add: bitmap_bits_to_words_def)
  have s1: "[0..<B] = [0..<32 * ?W] @ [32 * ?W..<B]"
    using assms(2) upt_add_eq_append [of 0 "32 * ?W" "B - 32 * ?W"] by simp
  have s2: "[0..<32 * ?W] = [0..<n] @ [n..<32 * ?W]"
    using n upt_add_eq_append [of 0 n "32 * ?W - n"] by simp
  have a: "filter (covered_bit cur ?W) [32 * ?W..<B] = []"
    by (auto simp: filter_empty_conv covered_bit_def)
  have b: "filter (covered_bit cur ?W) [0..<32 * ?W] = filter (bitmap_bit cur) [0..<32 * ?W]"
    by (rule filter_cong) (auto simp: covered_bit_def)
  have c: "filter (bitmap_bit cur) [n..<32 * ?W] = []"
    using assms(1) by (simp add: bitmap_wf_def)
  have "filter (covered_bit cur ?W) [0..<B] = filter (bitmap_bit cur) [0..<32 * ?W]"
    by (subst s1) (simp add: a b)
  also have "\<dots> = filter (bitmap_bit cur) [0..<n]"
    by (subst s2) (simp add: c)
  finally show ?thesis by (simp add: bitmap_members_def)
qed

lemma frontier_update_list_result:
  assumes "launch_wf l (len s)" "bitmap_wf (h (current s)) (len s)" "length (list_v s) = len s"
    and "D = concat (map (block_ids l (h (current s)) (bitmap_bits_to_words (len s)))
                       (block_order l))"
  shows "frontier_update_list_gpu l h s = s\<lparr>count_v := length D, list_v := D @ drop (length D) (list_v s)\<rparr>"
    and "mset D = mset (bitmap_members (h (current s)) (len s))"
proof -
  let ?cur = "h (current s)" and ?W = "bitmap_bits_to_words (len s)"
  let ?t = "threads_per_block l"
  have t: "?t mod 32 = 0" and cov: "len s \<le> blocks l * ?t"
    and wo: "\<forall>b < blocks l. mset (warp_order l b) = mset [0..<?t div 32]"
    and bo: "mset (block_order l) = mset [0..<blocks l]"
    using assms(1) by (simp_all add: launch_wf_def list_all_iff)
  have "mset D = mset (filter (covered_bit ?cur ?W) [0..<blocks l * ?t])"
    unfolding assms(4) using wo t bo by (rule mset_all_block_ids)
  then show m: "mset D = mset (bitmap_members ?cur (len s))"
    using covered_members [OF assms(2) words_covered [OF t cov]] by simp
  have "length D = length (bitmap_members ?cur (len s))"
    using m by (metis size_mset)
  then have room: "0 + length D \<le> length (list_v s)"
    using length_bitmap_members_le [of ?cur "len s"] assms(3) by simp
  have sb: "set (block_order l) = set [0..<blocks l]" using bo by (rule mset_eq_setD)
  have wo': "\<forall>b \<in> set (block_order l). mset (warp_order l b) = mset [0..<?t div 32]"
    using wo sb by simp
  have "fold (\<lambda>b. build_store ?t ?W b (build_block l ?cur ?W b)) (block_order l) (0, list_v s)
          = (0 + length D, take 0 (list_v s) @ D @ drop (0 + length D) (list_v s))"
    using wo' t assms(4) room by (rule build_blocks_fold)
  then show "frontier_update_list_gpu l h s
               = s\<lparr>count_v := length D, list_v := D @ drop (length D) (list_v s)\<rparr>"
    by (simp add: frontier_update_list_gpu_def frontier_build_kernel_def Let_def)
qed

text \<open>
  C1: for every well-formed launch and every frontier state whose \<open>current\<close> bitmap is
  well formed for \<open>len\<close> bits and has \<open>k\<close> of them set, \<^verbatim>\<open>frontier_update_list_gpu\<close>
  leaves the counter at \<open>k\<close> and \<open>k\<close> pairwise distinct ids in the first \<open>k\<close> slots of
  the list, which are exactly the ids whose bit is set; a second call on the same bitmap,
  under any other well-formed launch, gives the same count and the same ids, as a set and
  as a multiset (the order may differ).
\<close>

theorem frontier_update_list_gpu_correct:
  assumes "launch_wf l (len s)" "launch_wf l' (len s)"
    and "bitmap_wf (h (current s)) (len s)"
    and "length (list_v s) = len s"
    and "k = card {v. v < len s \<and> bitmap_bit (h (current s)) v}"
    and "s1 = frontier_update_list_gpu l h s"
    and "s2 = frontier_update_list_gpu l' h s1"
  shows "count_v s1 = k \<and> k \<le> length (list_v s1) \<and>
         distinct (take k (list_v s1)) \<and>
         set (take k (list_v s1)) = {v. v < len s \<and> bitmap_bit (h (current s)) v} \<and>
         count_v s2 = count_v s1 \<and>
         set (take (count_v s2) (list_v s2)) = set (take (count_v s1) (list_v s1)) \<and>
         mset (take (count_v s2) (list_v s2)) = mset (take (count_v s1) (list_v s1))"
proof -
  let ?cur = "h (current s)"
  let ?M = "bitmap_members ?cur (len s)"
  have kM: "k = length ?M" using assms(5) by (simp add: length_bitmap_members)
  have step: "count_v t' = length ?M \<and> mset (take (length ?M) (list_v t')) = mset ?M \<and>
              len t' = len s \<and> current t' = current s \<and> length (list_v t') = len s"
    if "launch_wf m (len s)" "len t = len s" "current t = current s" "length (list_v t) = len s"
       "t' = frontier_update_list_gpu m h t" for m t t'
  proof -
    let ?D = "concat (map (block_ids m (h (current t)) (bitmap_bits_to_words (len t)))
                       (block_order m))"
    have r: "t' = t\<lparr>count_v := length ?D, list_v := ?D @ drop (length ?D) (list_v t)\<rparr>"
      and m: "mset ?D = mset ?M"
      using frontier_update_list_result [of m t h ?D] that assms(3) by simp_all
    have l: "length ?D = length ?M" using m by (metis size_mset)
    have "length ?D \<le> length (list_v t)"
      using l that(4) length_bitmap_members_le [of ?cur "len s"] by simp
    with r m l that show ?thesis by simp
  qed
  note a = step [OF assms(1) refl refl assms(4) assms(6)]
  from a have a': "len s1 = len s" "current s1 = current s" "length (list_v s1) = len s"
    by simp_all
  note b = step [OF assms(2) a' assms(7)]
  have d: "distinct (take k (list_v s1))"
    using a kM distinct_bitmap_members [of ?cur "len s"]
    by (metis mset_eq_imp_distinct_iff)
  have st: "set (take k (list_v s1)) = {v. v < len s \<and> bitmap_bit ?cur v}"
    using a kM set_bitmap_members [of ?cur "len s"] by (metis mset_eq_setD)
  have kl: "k \<le> length (list_v s1)"
    using a' kM length_bitmap_members_le [of ?cur "len s"] by simp
  have ms: "mset (take (count_v s2) (list_v s2)) = mset (take (count_v s1) (list_v s1))"
    using a b by simp
  then have "set (take (count_v s2) (list_v s2)) = set (take (count_v s1) (list_v s1))"
    by (rule mset_eq_setD)
  with a b d st kl kM ms show ?thesis by simp
qed

text \<open>The witness: 70 vertices with the bits 0, 2, 64 and 65 set; the first call runs
  the warps and the blocks in descending order, the second in ascending order.\<close>

lemma members70: "bitmap_members (heap70 (current state70)) (len state70) = [0, 2, 64, 65]"
  by (simp add: bitmap_members_def heap70_def state70_def bitmap_bit_def bitmap_is_set_def upt_rec)

lemma wf70: "bitmap_wf (heap70 (current state70)) (len state70)"
  by (simp add: bitmap_wf_def heap70_def state70_def bitmap_bit_def bitmap_is_set_def
        bitmap_bits_to_words_def upt_rec)

lemma launches70: "launch_wf launch_2x64_desc (len state70)" "launch_wf launch_2x64_asc (len state70)"
  by (simp_all add: launch_wf_def launch_2x64_desc_def launch_2x64_asc_def state70_def upt_rec)

theorem frontier_update_list_gpu_correct_witness:
  "launch_wf launch_2x64_desc (len state70) \<and> launch_wf launch_2x64_asc (len state70) \<and>
   bitmap_wf (heap70 (current state70)) (len state70) \<and>
   length (list_v state70) = len state70 \<and>
   card {v. v < len state70 \<and> bitmap_bit (heap70 (current state70)) v} = 4 \<and>
   count_v (frontier_update_list_gpu launch_2x64_desc heap70 state70) = 4 \<and>
   distinct (take 4 (list_v (frontier_update_list_gpu launch_2x64_desc heap70 state70))) \<and>
   set (take 4 (list_v (frontier_update_list_gpu launch_2x64_desc heap70 state70)))
     = {0, 2, 64, 65} \<and>
   count_v (frontier_update_list_gpu launch_2x64_asc heap70
              (frontier_update_list_gpu launch_2x64_desc heap70 state70)) = 4"
proof -
  have len: "length (list_v state70) = len state70" by (simp add: state70_def)
  have k: "card {v. v < len state70 \<and> bitmap_bit (heap70 (current state70)) v} = 4"
    using length_bitmap_members [of "heap70 (current state70)" "len state70"]
    by (simp add: members70)
  have st: "{v. v < len state70 \<and> bitmap_bit (heap70 (current state70)) v} = {0, 2, 64, 65}"
    using set_bitmap_members [of "heap70 (current state70)" "len state70"]
    by (simp add: members70)
  from frontier_update_list_gpu_correct
         [where ?s1.0 = "frontier_update_list_gpu launch_2x64_desc heap70 state70"
            and ?s2.0 = "frontier_update_list_gpu launch_2x64_asc heap70
                           (frontier_update_list_gpu launch_2x64_desc heap70 state70)",
          OF launches70 wf70 len k [symmetric] refl refl]
  show ?thesis
    using launches70 wf70 len k st by simp
qed

subsection \<open>In index order the list is ascending\<close>

text \<open>When the warps of every block and the blocks take their turns in index order, the
  list holds the set ids in ascending order. The kernel promises no such order.\<close>

lemma block_ids_in_order:
  assumes "warp_order l b = [0..<threads_per_block l div 32]" "threads_per_block l mod 32 = 0"
  shows "block_ids l cur words b
           = filter (covered_bit cur words)
               [b * threads_per_block l..<b * threads_per_block l + threads_per_block l]"
proof -
  let ?t = "threads_per_block l"
  have c: "(b * ?t) mod 32 = 0" using assms(2) by (simp add: mod_eq_0_iff_dvd)
  have t: "32 * (?t div 32) = ?t" using assms(2) by (simp add: mod_eq_0_iff_dvd)
  show ?thesis
    using concat_warp_ids_filter [OF c, of cur words "?t div 32"] assms(1)
    by (simp add: block_ids_def t)
qed

lemma frontier_update_list_gpu_in_order:
  assumes "launch_wf l (len s)" "bitmap_wf (h (current s)) (len s)" "length (list_v s) = len s"
    and "\<forall>b < blocks l. warp_order l b = [0..<threads_per_block l div 32]"
    and "block_order l = [0..<blocks l]"
  shows "take (count_v (frontier_update_list_gpu l h s)) (list_v (frontier_update_list_gpu l h s))
           = bitmap_members (h (current s)) (len s)"
proof -
  let ?cur = "h (current s)" and ?W = "bitmap_bits_to_words (len s)"
  let ?t = "threads_per_block l"
  let ?D = "concat (map (block_ids l ?cur ?W) (block_order l))"
  have t: "?t mod 32 = 0" and cov: "len s \<le> blocks l * ?t"
    using assms(1) by (simp_all add: launch_wf_def)
  have "map (block_ids l ?cur ?W) [0..<blocks l]
          = map (\<lambda>b. filter (covered_bit ?cur ?W) [b * ?t..<b * ?t + ?t]) [0..<blocks l]"
    using assms(4) t by (intro map_cong) (simp_all add: block_ids_in_order)
  then have "concat (map (block_ids l ?cur ?W) [0..<blocks l])
          = concat (map (\<lambda>b. filter (covered_bit ?cur ?W) [b * ?t..<b * ?t + ?t]) [0..<blocks l])"
    by (rule arg_cong)
  then have "?D = filter (covered_bit ?cur ?W) [0..<blocks l * ?t]"
    by (simp only: assms(5) concat_block_ranges)
  then have D: "?D = bitmap_members ?cur (len s)"
    using covered_members [OF assms(2) words_covered [OF t cov]] by simp
  show ?thesis
    using frontier_update_list_result(1) [where l = l and h = h and s = s and D = ?D, OF assms(1,2,3) refl]
      length_bitmap_members_le [of ?cur "len s"] assms(3)
    by (simp add: D)
qed

subsection \<open>A level of the traversal, evaluated\<close>

lemma map2_and_not_zero:
  "length xs = n \<Longrightarrow> map2 (\<lambda>c d. c AND NOT d) xs (replicate n (0::32 word)) = xs"
  by (induction xs arbitrary: n) auto

lemma frontier_level_eval:
  assumes "launch_wf l n" "bitmap_wf visited_words n"
    and "D = concat (map (block_ids l visited_words (bitmap_bits_to_words n)) (block_order l))"
  shows "frontier_level l n visited_words offsets =
           frontier_update_boundaries_gpu True l offsets
             \<lparr>len = n, current = 2, visited_last = 1,
              list_v = D @ drop (length D) (replicate n 0), list_len = n,
              count_v = length D, boundaries = replicate 7 0\<rparr>"
proof -
  let ?W = "bitmap_bits_to_words n"
  let ?h0 = "((\<lambda>a. [])(1 := replicate ?W 0, 2 := replicate ?W 0, 3 := visited_words)) :: heap_t"
  let ?s1 = "\<lparr>len = n, current = 2, visited_last = 1, list_v = replicate n 0, list_len = n,
              count_v = 0, boundaries = replicate 7 0\<rparr>"
  let ?h1 = "bitmap_diff_copy 3 2 1 n ?h0"
  have lv: "length visited_words = ?W" using assms(2) by (simp add: bitmap_wf_def)
  have "?h1 2 = map2 (\<lambda>c d. c AND NOT d) (?h0 3) (?h0 2)"
    using lv by (intro bitmap_diff_copy_effect(3)) simp_all
  then have cur: "?h1 (current ?s1) = visited_words"
    using lv by (simp add: map2_and_not_zero)
  have "frontier_update_list_gpu l ?h1 ?s1
          = ?s1\<lparr>count_v := length D, list_v := D @ drop (length D) (list_v ?s1)\<rparr>"
    using assms cur by (intro frontier_update_list_result(1)) simp_all
  then show ?thesis
    by (simp add: frontier_level_def frontier_init_gpu_def frontier_update_bitmap_gpu_def
          FRONTIER_BOUNDARY_COUNT_def Let_def)
qed
section \<open>The degree boundaries\<close>

subsection \<open>The least index of a bucket\<close>

lemma first_index_le: "first_index P n \<le> n"
  unfolding first_index_def by (metis length_takeWhile_le length_upt diff_zero)

lemma first_index_holds: "first_index P n < n \<Longrightarrow> P (first_index P n)"
  unfolding first_index_def
  using nth_length_takeWhile [of "\<lambda>i. \<not> P i" "[0..<n]"] by simp

lemma first_index_before: "i < first_index P n \<Longrightarrow> \<not> P i"
proof -
  assume a: "i < first_index P n"
  let ?t = "takeWhile (\<lambda>i. \<not> P i) [0..<n]"
  have "i < length ?t" using a by (simp add: first_index_def)
  then have "?t ! i \<in> set ?t" by simp
  then have "\<not> P (?t ! i)" by (rule set_takeWhileD [THEN conjunct2])
  moreover have "?t ! i = [0..<n] ! i" using \<open>i < length ?t\<close> by (rule takeWhile_nth)
  moreover have "i < n" using a first_index_le [of P n] by simp
  ultimately show ?thesis by simp
qed

lemma first_index_Min:
  "Min (insert n {i. i < n \<and> P i}) = first_index P n"
proof (rule Min_eqI)
  show "finite (insert n {i. i < n \<and> P i})" by simp
  show "first_index P n \<le> y" if "y \<in> insert n {i. i < n \<and> P i}" for y
    using that first_index_le [of P n] first_index_before [of y P n]
    by (cases "y < first_index P n") auto
  show "first_index P n \<in> insert n {i. i < n \<and> P i}"
    using first_index_le [of P n] first_index_holds [of P n] by (cases "first_index P n < n") auto
qed

lemma Min_insert_min:
  fixes a :: nat
  assumes "finite S"
  shows "Min (insert (min a x) S) = Min (insert a (insert x S))"
proof (cases "S = {}")
  case True
  then show ?thesis by (simp add: min.commute)
next
  case False
  with assms show ?thesis by (simp add: min.assoc)
qed

lemma degree_bucket_mono: "m \<le> n \<Longrightarrow> degree_bucket m \<le> degree_bucket n"
  by (simp add: degree_bucket_def)

lemma degree_bucket_le: "degree_bucket n \<le> 6"
  by (simp add: degree_bucket_def)

lemma update_boundaries_thread_eq:
  assumes "index < count_v s"
  shows "update_boundaries_thread vs index s =
           s\<lparr>boundaries :=
               (if degree_bucket (nbr_count vs (list_v s ! index)) = 0 then boundaries s
                else (boundaries s)[degree_bucket (nbr_count vs (list_v s ! index)) :=
                        min (boundaries s ! degree_bucket (nbr_count vs (list_v s ! index))) index])\<rparr>"
proof -
  let ?n = "nbr_count vs (list_v s ! index)"
  consider "?n < 8" | "8 \<le> ?n" "?n < 32" | "32 \<le> ?n" "?n < 128" | "128 \<le> ?n" "?n < 256"
    | "256 \<le> ?n" "?n < 1024" | "1024 \<le> ?n" "?n < 2048" | "2048 \<le> ?n"
    by linarith
  note c = this
  have idx: "Suc (Suc 0) = 2" "Suc (Suc (Suc 0)) = 3" "Suc (Suc (Suc (Suc 0))) = 4"
    by simp_all
  from c show ?thesis
    using assms
    by cases (simp_all add: update_boundaries_thread_def degree_bucket_def atomicMin_def Let_def idx)
qed

lemma update_boundaries_thread_skip:
  "\<not> index < count_v s \<Longrightarrow> update_boundaries_thread vs index s = s"
  by (simp add: update_boundaries_thread_def)

lemma update_boundaries_thread_keeps:
  "count_v (update_boundaries_thread vs index s) = count_v s"
  "list_v (update_boundaries_thread vs index s) = list_v s"
  "length (boundaries (update_boundaries_thread vs index s)) = length (boundaries s)"
  by (cases "index < count_v s"; simp add: update_boundaries_thread_eq update_boundaries_thread_skip)+

lemma update_boundaries_thread_nth:
  assumes "j < length (boundaries s)"
  shows "boundaries (update_boundaries_thread vs index s) ! j =
           (if index < count_v s \<and> j \<noteq> 0 \<and> degree_bucket (nbr_count vs (list_v s ! index)) = j
            then min (boundaries s ! j) index else boundaries s ! j)"
  using assms
  by (cases "index < count_v s")
     (auto simp: update_boundaries_thread_eq update_boundaries_thread_skip nth_list_update)

lemma fold_update_boundaries_keeps:
  "count_v (fold (update_boundaries_thread vs) ts s) = count_v s"
  "list_v (fold (update_boundaries_thread vs) ts s) = list_v s"
  "length (boundaries (fold (update_boundaries_thread vs) ts s)) = length (boundaries s)"
  by (induction ts arbitrary: s; simp add: update_boundaries_thread_keeps)+

lemma fold_update_boundaries_nth:
  assumes "j < length (boundaries s)"
  shows "boundaries (fold (update_boundaries_thread vs) ts s) ! j =
           (if j = 0 then boundaries s ! 0
            else Min (insert (boundaries s ! j)
                   {i \<in> set ts. i < count_v s \<and> degree_bucket (nbr_count vs (list_v s ! i)) = j}))"
  using assms
proof (induction ts arbitrary: s)
  case Nil
  then show ?case by simp
next
  case (Cons x ts)
  let ?s1 = "update_boundaries_thread vs x s"
  let ?S = "{i \<in> set ts. i < count_v s \<and> degree_bucket (nbr_count vs (list_v s ! i)) = j}"
  have j1: "j < length (boundaries ?s1)" using Cons.prems by (simp add: update_boundaries_thread_keeps)
  have fin: "finite ?S" by simp
  show ?case
  proof (cases "j = 0")
    case True
    then show ?thesis
      using Cons.IH [OF j1] Cons.prems by (simp add: update_boundaries_thread_nth)
  next
    case False
    have ih: "boundaries (fold (update_boundaries_thread vs) ts ?s1) ! j =
                Min (insert (boundaries ?s1 ! j) ?S)"
      using Cons.IH [OF j1] False by (simp add: update_boundaries_thread_keeps)
    show ?thesis
    proof (cases "x < count_v s \<and> degree_bucket (nbr_count vs (list_v s ! x)) = j")
      case True
      then have set_eq: "{i \<in> set (x # ts). i < count_v s \<and>
                    degree_bucket (nbr_count vs (list_v s ! i)) = j} = insert x ?S"
        by auto
      have "boundaries ?s1 ! j = min (boundaries s ! j) x"
        using True False Cons.prems by (simp add: update_boundaries_thread_nth)
      then have "Min (insert (boundaries ?s1 ! j) ?S) = Min (insert (boundaries s ! j) (insert x ?S))"
        using fin by (simp add: Min_insert_min)
      with ih set_eq False show ?thesis by simp
    next
      case F2: False
      then have set_eq: "{i \<in> set (x # ts). i < count_v s \<and>
                    degree_bucket (nbr_count vs (list_v s ! i)) = j} = ?S"
        by auto
      have "boundaries ?s1 ! j = boundaries s ! j"
        using F2 Cons.prems by (auto simp: update_boundaries_thread_nth)
      with ih set_eq False show ?thesis by simp
    qed
  qed
qed

lemma init_boundaries_nth:
  assumes "length (boundaries s) = FRONTIER_BOUNDARY_COUNT + 1" "j \<le> 6"
  shows "boundaries (frontier_init_boundaries_kernel s) ! j =
           (if j = 0 then boundaries s ! 0 else count_v s)"
proof -
  have "length (boundaries s) = 7" using assms by (simp add: FRONTIER_BOUNDARY_COUNT_def)
  then obtain a0 a1 a2 a3 a4 a5 a6 where b: "boundaries s = [a0, a1, a2, a3, a4, a5, a6]"
    by (auto simp: length_Suc_conv eval_nat_numeral)
  have "boundaries (frontier_init_boundaries_kernel s) =
          [a0, count_v s, count_v s, count_v s, count_v s, count_v s, count_v s]"
    by (simp add: frontier_init_boundaries_kernel_def FRONTIER_BOUNDARY_COUNT_def b upt_rec)
  moreover have "j \<in> {0, 1, 2, 3, 4, 5, 6}" using assms(2) by auto
  ultimately show ?thesis using b by auto
qed

lemma init_boundaries_keeps:
  "count_v (frontier_init_boundaries_kernel s) = count_v s"
  "list_v (frontier_init_boundaries_kernel s) = list_v s"
  "length (boundaries (frontier_init_boundaries_kernel s)) = length (boundaries s)"
  by (simp_all add: frontier_init_boundaries_kernel_def)

lemma boundaries_result:
  assumes "length (boundaries s) = FRONTIER_BOUNDARY_COUNT + 1"
    and "{..<count_v s} \<subseteq> set (thread_order l)"
    and "j \<le> 6"
  shows "boundaries (frontier_update_boundaries_gpu True l vs s) ! j =
           (if j = 0 then boundaries s ! 0
            else first_index (\<lambda>i. degree_bucket (nbr_count vs (list_v s ! i)) = j) (count_v s))"
proof -
  let ?s0 = "frontier_init_boundaries_kernel s"
  let ?P = "\<lambda>i. degree_bucket (nbr_count vs (list_v s ! i)) = j"
  have len: "j < length (boundaries ?s0)"
    using assms(1,3) by (simp add: init_boundaries_keeps FRONTIER_BOUNDARY_COUNT_def)
  show ?thesis
  proof (cases "count_v s = 0")
    case True
    then show ?thesis
      using assms init_boundaries_nth [OF assms(1,3)]
      by (simp add: frontier_update_boundaries_gpu_def
            frontier_update_boundaries_launch_kernel_def init_boundaries_keeps first_index_def)
  next
    case False
    have set_eq: "{i \<in> set (thread_order l). i < count_v s \<and> ?P i} = {i. i < count_v s \<and> ?P i}"
      using assms(2) by auto
    have "boundaries (frontier_update_boundaries_gpu True l vs s) ! j =
            boundaries (fold (update_boundaries_thread vs) (thread_order l) ?s0) ! j"
      using False
      by (simp add: frontier_update_boundaries_gpu_def
            frontier_update_boundaries_launch_kernel_def init_boundaries_keeps
            frontier_update_boundaries_kernel_def)
    also have "\<dots> = (if j = 0 then boundaries s ! 0
                      else Min (insert (count_v s) {i. i < count_v s \<and> ?P i}))"
      using fold_update_boundaries_nth [OF len, of vs "thread_order l"]
        init_boundaries_nth [OF assms(1,3)] set_eq
      by (cases "j = 0") (simp_all add: init_boundaries_keeps)
    finally show ?thesis by (simp add: first_index_Min)
  qed
qed

lemma degree_bucket_ranges:
  "(degree_bucket n = 0 \<longleftrightarrow> n \<le> 7) \<and>
   (degree_bucket n = 1 \<longleftrightarrow> 8 \<le> n \<and> n \<le> 31) \<and>
   (degree_bucket n = 2 \<longleftrightarrow> 32 \<le> n \<and> n \<le> 127) \<and>
   (degree_bucket n = 3 \<longleftrightarrow> 128 \<le> n \<and> n \<le> 255) \<and>
   (degree_bucket n = 4 \<longleftrightarrow> 256 \<le> n \<and> n \<le> 1023) \<and>
   (degree_bucket n = 5 \<longleftrightarrow> 1024 \<le> n \<and> n \<le> 2047) \<and>
   (degree_bucket n = 6 \<longleftrightarrow> 2048 \<le> n)"
  by (simp add: degree_bucket_def)

subsection \<open>Levels of a traversal, evaluated\<close>

lemma boundaries_eval:
  "frontier_update_boundaries_gpu True l offsets s =
     (if count_v s = 0 then frontier_init_boundaries_kernel s
      else fold (update_boundaries_thread offsets) (thread_order l)
             (frontier_init_boundaries_kernel s))"
  by (simp add: frontier_update_boundaries_gpu_def frontier_update_boundaries_launch_kernel_def
        frontier_update_boundaries_kernel_def init_boundaries_keeps)

lemma frontier_level_2: "frontier_level launch_1x32 2 [2] offsets_3_40 =
   \<lparr>len = 2, current = 2, visited_last = 1, list_v = [1, 0], list_len = 2, count_v = 1,
     boundaries = [0, 1, 0, 1, 1, 1, 1]\<rparr>"
proof -
  have w: "launch_wf launch_1x32 2" by (simp add: launch_wf_def launch_1x32_def)
  have b: "bitmap_wf [2] 2"
    by (simp add: bitmap_wf_def bitmap_bits_to_words_def bitmap_bit_def bitmap_is_set_def upt_rec)
  have D: "[1] = concat (map (block_ids launch_1x32 [2] (bitmap_bits_to_words 2))
                          (block_order launch_1x32))"
    by (simp add: block_ids_def launch_1x32_def warp_ids_def bitmap_bits_to_words_def
          bitmap_is_set_def upt_rec)
  show ?thesis
    unfolding frontier_level_eval [OF w b D]
    by (simp add: boundaries_eval frontier_init_boundaries_kernel_def
        update_boundaries_thread_def launch_1x32_def FRONTIER_BOUNDARY_COUNT_def
        nbr_count_def atomicMin_def offsets_3_40_def Let_def upt_rec replicate_num)
qed

lemma frontier_level_3: "frontier_level launch_1x32 3 [5] offsets_3_10_40 =
   \<lparr>len = 3, current = 2, visited_last = 1, list_v = [0, 2, 0], list_len = 3, count_v = 2,
     boundaries = [0, 2, 1, 2, 2, 2, 2]\<rparr>"
proof -
  have w: "launch_wf launch_1x32 3" by (simp add: launch_wf_def launch_1x32_def)
  have b: "bitmap_wf [5] 3"
    by (simp add: bitmap_wf_def bitmap_bits_to_words_def bitmap_bit_def bitmap_is_set_def upt_rec)
  have D: "[0, 2] = concat (map (block_ids launch_1x32 [5] (bitmap_bits_to_words 3))
                          (block_order launch_1x32))"
    by (simp add: block_ids_def launch_1x32_def warp_ids_def bitmap_bits_to_words_def
          bitmap_is_set_def upt_rec)
  show ?thesis
    unfolding frontier_level_eval [OF w b D]
    by (simp add: boundaries_eval 
        frontier_init_boundaries_kernel_def 
        update_boundaries_thread_def launch_1x32_def FRONTIER_BOUNDARY_COUNT_def
        nbr_count_def atomicMin_def offsets_3_10_40_def Let_def upt_rec replicate_num)
qed

lemma frontier_level_70: "frontier_level launch_2x64_desc 70 [1, 0, 1] offsets70 =
   \<lparr>len = 70, current = 2, visited_last = 1, list_v = [64, 0] @ replicate 68 0, list_len = 70,
     count_v = 2, boundaries = [0, 1, 0, 2, 2, 2, 2]\<rparr>"
proof -
  have w: "launch_wf launch_2x64_desc 70"
    by (simp add: launch_wf_def launch_2x64_desc_def upt_rec)
  have b: "bitmap_wf [1, 0, 1] 70"
    by (simp add: bitmap_wf_def bitmap_bits_to_words_def bitmap_bit_def bitmap_is_set_def upt_rec)
  have D: "[64, 0] = concat (map (block_ids launch_2x64_desc [1, 0, 1] (bitmap_bits_to_words 70))
                          (block_order launch_2x64_desc))"
    by (simp add: block_ids_def launch_2x64_desc_def warp_ids_def bitmap_bits_to_words_def
          bitmap_is_set_def drop_bit_eq_div upt_rec)
  have n: "nbr_count offsets70 64 = 32" "nbr_count offsets70 0 = 8"
    by (simp_all add: nbr_count_def offsets70_def)
  show ?thesis
    unfolding frontier_level_eval [OF w b D]
    by (simp add: boundaries_eval 
        frontier_init_boundaries_kernel_def 
        update_boundaries_thread_def launch_2x64_desc_def FRONTIER_BOUNDARY_COUNT_def
        n atomicMin_def Let_def upt_rec replicate_num)
qed

lemma sorted70: "sorted (map (nbr_count offsets70) [0..<70])"
proof -
  have "nbr_count offsets70 v = (if v < 64 then 8 else 32)" if "v < 70" for v
    using that by (simp add: nbr_count_def offsets70_def)
  then have "map (nbr_count offsets70) [0..<70] = map (\<lambda>v. if v < 64 then 8 else 32) [0..<70]"
    by (intro map_cong) simp_all
  then show ?thesis by (simp add: sorted_iff_nth_mono)
qed

subsection \<open>What the boundary array records\<close>

text \<open>
  C3, as stated, fails for the first bucket. Both kernels address the array from entry 1
  on (\<^verbatim>\<open>state.boundaries[index + 1]\<close>, \<^verbatim>\<open>&state.boundaries[1]\<close>), so entry 0, the
  bucket of the degrees 1 to 7, is never written and keeps the 0 of its allocation. Here
  the list holds one vertex, of out-degree 40: no listed vertex has a degree from 1 to 7,
  the claim has entry 0 record the list count 1, and it is 0.
\<close>

theorem frontier_boundaries_first_bucket_unrecorded:
  "count_v (frontier_level launch_1x32 2 [2] offsets_3_40) = 1 \<and>
   take 1 (list_v (frontier_level launch_1x32 2 [2] offsets_3_40)) = [1] \<and>
   nbr_count offsets_3_40 1 = 40 \<and>
   boundaries (frontier_level launch_1x32 2 [2] offsets_3_40) ! 0 = 0 \<and>
   boundaries (frontier_level launch_1x32 2 [2] offsets_3_40) = [0, 1, 0, 1, 1, 1, 1]"
  unfolding frontier_level_2 by (simp add: nbr_count_def offsets_3_40_def)

text \<open>
  C3, amended: for every frontier state with an allocated boundary array and a thread for
  every list index (the list may be empty, and in any order), after
  \<^verbatim>\<open>frontier_update_boundaries_gpu\<close> each of the six entries 1 to 6, the buckets 8-31,
  32-127, 128-255, 256-1023, 1024-2047 and 2048 or more, holds the least list index whose
  vertex has its out-degree in the bucket, and the list count when there is none; entry 0
  is left as it was.
\<close>

theorem frontier_boundaries_least_index:
  assumes "length (boundaries s) = FRONTIER_BOUNDARY_COUNT + 1"
    and "{..<count_v s} \<subseteq> set (thread_order l)"
  shows "boundaries (frontier_update_boundaries_gpu True l offsets s) ! 0 = boundaries s ! 0 \<and>
         (\<forall>j \<in> {1..6}.
            boundaries (frontier_update_boundaries_gpu True l offsets s) ! j =
              first_index (\<lambda>i. degree_bucket (nbr_count offsets (list_v s ! i)) = j)
                (count_v s))"
  using boundaries_result [OF assms] by auto

text \<open>The witness: the list 0, 1, 2 over the degrees 3, 10 and 40, and an array that
  held 9 everywhere but in entry 0.\<close>

theorem frontier_boundaries_least_index_witness:
  "length (boundaries state3) = FRONTIER_BOUNDARY_COUNT + 1 \<and>
   {..<count_v state3} \<subseteq> set (thread_order launch_1x32) \<and>
   boundaries (frontier_update_boundaries_gpu True launch_1x32 offsets_3_10_40 state3) ! 0 = 0 \<and>
   boundaries (frontier_update_boundaries_gpu True launch_1x32 offsets_3_10_40 state3) ! 1 = 1 \<and>
   boundaries (frontier_update_boundaries_gpu True launch_1x32 offsets_3_10_40 state3) ! 2 = 2 \<and>
   boundaries (frontier_update_boundaries_gpu True launch_1x32 offsets_3_10_40 state3) ! 3 = 3"
proof -
  have h: "length (boundaries state3) = FRONTIER_BOUNDARY_COUNT + 1"
    "{..<count_v state3} \<subseteq> set (thread_order launch_1x32)"
    by (auto simp: state3_def FRONTIER_BOUNDARY_COUNT_def launch_1x32_def)
  have f: "first_index (\<lambda>i. degree_bucket (nbr_count offsets_3_10_40 (list_v state3 ! i)) = 1)
             (count_v state3) = 1"
    "first_index (\<lambda>i. degree_bucket (nbr_count offsets_3_10_40 (list_v state3 ! i)) = 2)
             (count_v state3) = 2"
    "first_index (\<lambda>i. degree_bucket (nbr_count offsets_3_10_40 (list_v state3 ! i)) = 3)
             (count_v state3) = 3"
    by (simp_all add: first_index_def state3_def nbr_count_def offsets_3_10_40_def
          degree_bucket_def upt_rec)
  from frontier_boundaries_least_index [OF h, of offsets_3_10_40]
  have "boundaries (frontier_update_boundaries_gpu True launch_1x32 offsets_3_10_40 state3) ! 0
          = boundaries state3 ! 0"
    and "\<And>j. j \<in> {1..6} \<Longrightarrow>
          boundaries (frontier_update_boundaries_gpu True launch_1x32 offsets_3_10_40 state3) ! j =
            first_index (\<lambda>i. degree_bucket (nbr_count offsets_3_10_40 (list_v state3 ! i)) = j)
              (count_v state3)"
    by blast+
  from this(1) this(2) [of 1] this(2) [of 2] this(2) [of 3] h f show ?thesis
    by (simp add: state3_def)
qed

text \<open>
  C4, as stated, fails. A bucket without a listed vertex records the list count, which
  is above the offset of any later bucket that has one: with the vertices 0 and 2 of
  degrees 3 and 40 listed, the bucket 8-31 records 2 and the bucket 32-127 records 1.
  And the build kernel fixes no order: over 70 vertices in ascending degree (8 up to
  vertex 63, then 32), with the blocks taking their turns in descending order, the list
  is 64, 0, and the bucket 8-31 records 1 while the bucket 32-127 records 0.
\<close>

theorem frontier_boundaries_not_monotone:
  "take 2 (list_v (frontier_level launch_1x32 3 [5] offsets_3_10_40)) = [0, 2] \<and>
   boundaries (frontier_level launch_1x32 3 [5] offsets_3_10_40) = [0, 2, 1, 2, 2, 2, 2] \<and>
   \<not> boundaries (frontier_level launch_1x32 3 [5] offsets_3_10_40) ! 1
       \<le> boundaries (frontier_level launch_1x32 3 [5] offsets_3_10_40) ! 2 \<and>
   sorted (map (nbr_count offsets70) [0..<70]) \<and>
   take 2 (list_v (frontier_level launch_2x64_desc 70 [1, 0, 1] offsets70)) = [64, 0] \<and>
   boundaries (frontier_level launch_2x64_desc 70 [1, 0, 1] offsets70) = [0, 1, 0, 2, 2, 2, 2] \<and>
   \<not> boundaries (frontier_level launch_2x64_desc 70 [1, 0, 1] offsets70) ! 1
       \<le> boundaries (frontier_level launch_2x64_desc 70 [1, 0, 1] offsets70) ! 2"
  unfolding frontier_level_3 frontier_level_70 by (simp add: sorted70)

text \<open>
  C4, amended: when the listed vertices are in non-decreasing order of out-degree (as
  they are when the list is built in index order over a degree-sorted vertex ordering,
  see \<open>in_order_list_degree_sorted\<close>), then after the boundary update every entry 1 to 6
  is at most the list count, and a bucket that has a listed vertex (its entry is below
  the count) records an offset that is at most the entry of every later bucket. Entry 0
  is never written, so it is below all others when it holds the 0 of its allocation.
\<close>

theorem frontier_boundaries_monotone_nonempty:
  assumes "length (boundaries s) = FRONTIER_BOUNDARY_COUNT + 1"
    and "{..<count_v s} \<subseteq> set (thread_order l)"
    and "count_v s \<le> length (list_v s)"
    and "sorted (map (nbr_count offsets) (take (count_v s) (list_v s)))"
    and "s' = frontier_update_boundaries_gpu True l offsets s"
  shows "(\<forall>j \<in> {1..6}. boundaries s' ! j \<le> count_v s) \<and>
         (\<forall>i j. 1 \<le> i \<and> i < j \<and> j \<le> 6 \<and> boundaries s' ! i < count_v s
                 \<longrightarrow> boundaries s' ! i \<le> boundaries s' ! j) \<and>
         (boundaries s ! 0 = 0 \<longrightarrow> (\<forall>j \<le> 6. boundaries s' ! 0 \<le> boundaries s' ! j))"
proof -
  let ?P = "\<lambda>j i. degree_bucket (nbr_count offsets (list_v s ! i)) = j"
  have b: "boundaries s' ! j = first_index (?P j) (count_v s)" if "1 \<le> j" "j \<le> 6" for j
    using boundaries_result [OF assms(1,2), of j offsets] that assms(5) by simp
  have z: "boundaries s' ! 0 = boundaries s ! 0"
    using boundaries_result [OF assms(1,2), of 0 offsets] assms(5) by simp
  have le: "boundaries s' ! j \<le> count_v s" if "1 \<le> j" "j \<le> 6" for j
    using b [OF that] first_index_le by simp
  have mono: "boundaries s' ! i \<le> boundaries s' ! j"
    if h: "1 \<le> i" "i < j" "j \<le> 6" "boundaries s' ! i < count_v s" for i j
  proof (cases "boundaries s' ! j < count_v s")
    case False
    then show ?thesis using h(4) by simp
  next
    case True
    let ?mi = "first_index (?P i) (count_v s)" and ?mj = "first_index (?P j) (count_v s)"
    have bi: "boundaries s' ! i = ?mi" using b [of i] h by simp
    have bj: "boundaries s' ! j = ?mj" using b [of j] h by simp
    have pi: "?P i ?mi" using first_index_holds [of "?P i" "count_v s"] h(4) bi by simp
    have pj: "?P j ?mj" using first_index_holds [of "?P j" "count_v s"] True bj by simp
    show ?thesis
    proof (rule ccontr)
      assume "\<not> boundaries s' ! i \<le> boundaries s' ! j"
      then have lt: "?mj < ?mi" using bi bj by simp
      have mi: "?mi < count_v s" using h(4) bi by simp
      have "map (nbr_count offsets) (take (count_v s) (list_v s)) ! ?mj
              \<le> map (nbr_count offsets) (take (count_v s) (list_v s)) ! ?mi"
        using assms(3,4) lt mi by (intro sorted_nth_mono) simp_all
      then have "nbr_count offsets (list_v s ! ?mj) \<le> nbr_count offsets (list_v s ! ?mi)"
        using assms(3) lt mi by simp
      then have "j \<le> i" using degree_bucket_mono pi pj by metis
      with h(2) show False by simp
    qed
  qed
  show ?thesis using le mono z by auto
qed

theorem frontier_boundaries_monotone_nonempty_witness:
  "length (boundaries state3) = FRONTIER_BOUNDARY_COUNT + 1 \<and>
   {..<count_v state3} \<subseteq> set (thread_order launch_1x32) \<and>
   count_v state3 \<le> length (list_v state3) \<and>
   sorted (map (nbr_count offsets_3_10_40) (take (count_v state3) (list_v state3))) \<and>
   boundaries (frontier_update_boundaries_gpu True launch_1x32 offsets_3_10_40 state3) ! 1
     < count_v state3 \<and>
   boundaries (frontier_update_boundaries_gpu True launch_1x32 offsets_3_10_40 state3) ! 1
     \<le> boundaries (frontier_update_boundaries_gpu True launch_1x32 offsets_3_10_40 state3) ! 2 \<and>
   boundaries (frontier_update_boundaries_gpu True launch_1x32 offsets_3_10_40 state3) ! 3
     \<le> count_v state3"
proof -
  let ?s' = "frontier_update_boundaries_gpu True launch_1x32 offsets_3_10_40 state3"
  have h: "length (boundaries state3) = FRONTIER_BOUNDARY_COUNT + 1"
    "{..<count_v state3} \<subseteq> set (thread_order launch_1x32)"
    "count_v state3 \<le> length (list_v state3)"
    "sorted (map (nbr_count offsets_3_10_40) (take (count_v state3) (list_v state3)))"
    by (auto simp: state3_def FRONTIER_BOUNDARY_COUNT_def launch_1x32_def nbr_count_def
          offsets_3_10_40_def)
  have e: "boundaries ?s' ! 1 < count_v state3"
    by (simp add: boundaries_eval frontier_init_boundaries_kernel_def
          update_boundaries_thread_def launch_1x32_def FRONTIER_BOUNDARY_COUNT_def
          nbr_count_def atomicMin_def offsets_3_10_40_def state3_def Let_def upt_rec)
  from frontier_boundaries_monotone_nonempty [OF h refl]
  have a: "\<forall>j \<in> {1..6}. boundaries ?s' ! j \<le> count_v state3"
    and m: "\<forall>i j. 1 \<le> i \<and> i < j \<and> j \<le> 6 \<and> boundaries ?s' ! i < count_v state3
                 \<longrightarrow> boundaries ?s' ! i \<le> boundaries ?s' ! j"
    by blast+
  from a have "boundaries ?s' ! 3 \<le> count_v state3" by simp
  moreover from m e have "boundaries ?s' ! 1 \<le> boundaries ?s' ! 2" by simp
  ultimately show ?thesis using h e by simp
qed

text \<open>The list built in index order over a degree-sorted vertex ordering is in
  non-decreasing order of out-degree.\<close>

lemma in_order_list_degree_sorted:
  assumes "launch_wf l (len s)" "bitmap_wf (h (current s)) (len s)" "length (list_v s) = len s"
    and "\<forall>b < blocks l. warp_order l b = [0..<threads_per_block l div 32]"
    and "block_order l = [0..<blocks l]"
    and "sorted (map (nbr_count offsets) [0..<len s])"
  shows "sorted (map (nbr_count offsets)
           (take (count_v (frontier_update_list_gpu l h s))
                 (list_v (frontier_update_list_gpu l h s))))"
  unfolding frontier_update_list_gpu_in_order
              [where l = l and h = h and s = s, OF assms(1-5)] bitmap_members_def
  using assms(6) by (rule sorted_filter)

section \<open>The destination of an update\<close>

text \<open>
  C5: for every current partition \<open>pid\<close>, partition count and neighbour reference,
  \<^verbatim>\<open>ENGINE_FETCH_DST\<close> yields the address of \<^verbatim>\<open>pstate[GET_VERTEX_ID(nbr)]\<close> when the
  neighbour's partition is \<open>pid\<close>, and otherwise the address of entry
  \<^verbatim>\<open>GET_VERTEX_ID(nbr)\<close> of the values array of the box that \<^verbatim>\<open>GROOVES_BOX_INDEX\<close> gives
  for the neighbour's partition as seen from \<open>pid\<close>, provided that box is in the table.
  The box depends on the ordered pair of partitions only, and where the box index tells
  the peers of \<open>pid\<close> apart, neighbours in different remote partitions get different
  boxes. The result is an address into the arrays that exist: the macro takes no store
  and returns none, so it allocates nothing, and reading through the address gives the
  entry of the state array or of the box.
\<close>

theorem engine_fetch_dst_resolves:
  assumes "inj_on (\<lambda>r. GROOVES_BOX_INDEX m r pid pcount) {r. r < pcount \<and> r \<noteq> pid}"
    and "\<forall>r < pcount. r \<noteq> pid \<longrightarrow> GROOVES_BOX_INDEX m r pid pcount < length outbox"
    and "GET_PARTITION_ID m nbr < pcount"
  shows "(GET_PARTITION_ID m nbr = pid \<longrightarrow>
            ENGINE_FETCH_DST m pid nbr outbox pstate pcount
              = Some (pstate, GET_VERTEX_ID m nbr) \<and>
            deref mem (the (ENGINE_FETCH_DST m pid nbr outbox pstate pcount))
              = mem pstate ! GET_VERTEX_ID m nbr) \<and>
         (GET_PARTITION_ID m nbr \<noteq> pid \<longrightarrow>
            ENGINE_FETCH_DST m pid nbr outbox pstate pcount
              = Some (values_p (outbox ! GROOVES_BOX_INDEX m (GET_PARTITION_ID m nbr) pid pcount),
                      GET_VERTEX_ID m nbr) \<and>
            deref mem (the (ENGINE_FETCH_DST m pid nbr outbox pstate pcount))
              = mem (values_p (outbox ! GROOVES_BOX_INDEX m (GET_PARTITION_ID m nbr) pid pcount))
                  ! GET_VERTEX_ID m nbr \<and>
            (\<forall>nbr'. GET_PARTITION_ID m nbr' < pcount \<and> GET_PARTITION_ID m nbr' \<noteq> pid \<and>
                    GET_PARTITION_ID m nbr' \<noteq> GET_PARTITION_ID m nbr
                \<longrightarrow> GROOVES_BOX_INDEX m (GET_PARTITION_ID m nbr') pid pcount
                      \<noteq> GROOVES_BOX_INDEX m (GET_PARTITION_ID m nbr) pid pcount))"
proof (intro conjI impI)
  assume l: "GET_PARTITION_ID m nbr = pid"
  then show "ENGINE_FETCH_DST m pid nbr outbox pstate pcount = Some (pstate, GET_VERTEX_ID m nbr)"
    by (simp add: ENGINE_FETCH_DST_def)
  then show "deref mem (the (ENGINE_FETCH_DST m pid nbr outbox pstate pcount))
               = mem pstate ! GET_VERTEX_ID m nbr"
    by (simp add: deref_def)
next
  assume r: "GET_PARTITION_ID m nbr \<noteq> pid"
  let ?box = "GROOVES_BOX_INDEX m (GET_PARTITION_ID m nbr) pid pcount"
  have inb: "?box < length outbox" using assms(2,3) r by simp
  with r show e: "ENGINE_FETCH_DST m pid nbr outbox pstate pcount
                    = Some (values_p (outbox ! ?box), GET_VERTEX_ID m nbr)"
    by (simp add: ENGINE_FETCH_DST_def)
  then show "deref mem (the (ENGINE_FETCH_DST m pid nbr outbox pstate pcount))
               = mem (values_p (outbox ! ?box)) ! GET_VERTEX_ID m nbr"
    by (simp add: deref_def)
  show "\<forall>nbr'. GET_PARTITION_ID m nbr' < pcount \<and> GET_PARTITION_ID m nbr' \<noteq> pid \<and>
                GET_PARTITION_ID m nbr' \<noteq> GET_PARTITION_ID m nbr
            \<longrightarrow> GROOVES_BOX_INDEX m (GET_PARTITION_ID m nbr') pid pcount \<noteq> ?box"
    using assms(1,3) r by (auto dest: inj_onD)
qed

text \<open>The witness: partition 1 of three. The neighbour (1, 5) is local, (2, 5) goes to
  box 0 and (0, 5) to box 1.\<close>

theorem engine_fetch_dst_resolves_witness:
  "inj_on (\<lambda>r. GROOVES_BOX_INDEX pair_macros r 1 3) {r. r < 3 \<and> r \<noteq> 1} \<and>
   ENGINE_FETCH_DST pair_macros 1 (1, 5) outbox1 10 3 = Some (10, 5) \<and>
   ENGINE_FETCH_DST pair_macros 1 (2, 5) outbox1 10 3 = Some (20, 5) \<and>
   ENGINE_FETCH_DST pair_macros 1 (0, 5) outbox1 10 3 = Some (21, 5)"
proof -
  have s: "{r. r < 3 \<and> r \<noteq> 1} = {0, 2 :: nat}" by auto
  have i: "inj_on (\<lambda>r. GROOVES_BOX_INDEX pair_macros r 1 3) {r. r < 3 \<and> r \<noteq> 1}"
    unfolding s by (simp add: pair_macros_def)
  have b: "\<forall>r < 3. r \<noteq> 1 \<longrightarrow> GROOVES_BOX_INDEX pair_macros r 1 3 < length outbox1"
  proof (intro allI impI)
    fix r :: nat assume "r < 3" "r \<noteq> 1"
    then have "r = 0 \<or> r = 2" by auto
    then show "GROOVES_BOX_INDEX pair_macros r 1 3 < length outbox1"
      by (auto simp: pair_macros_def outbox1_def)
  qed
  have p: "GET_PARTITION_ID pair_macros (1, 5) < 3" "GET_PARTITION_ID pair_macros (2, 5) < 3"
    "GET_PARTITION_ID pair_macros (0, 5) < 3"
    by (simp_all add: pair_macros_def)
  from engine_fetch_dst_resolves [where pstate = 10 and mem = "\<lambda>a. [] :: nat list", OF i b p(1)]
       engine_fetch_dst_resolves [where pstate = 10 and mem = "\<lambda>a. [] :: nat list", OF i b p(2)]
       engine_fetch_dst_resolves [where pstate = 10 and mem = "\<lambda>a. [] :: nat list", OF i b p(3)]
  show ?thesis
    using i by (simp add: pair_macros_def outbox1_def)
qed

section \<open>The host implementation computes shortest paths\<close>

text \<open>
  The relaxation updates the matrix in place, and the weights are added by whatever
  addition the weight type has. Two facts are carried through the loops: every cell stays
  a sum over the initial cost along some walk (\<open>attained\<close>), and after the middles
  \<open>0 .. k - 1\<close> every cell is at most a sum along every walk whose inner vertices are
  below \<open>k\<close>. Both are proved for the loops in which every access lands, which are the
  code's loops when there are fewer than 65536 vertices.
\<close>

lemma fold_invariant:
  assumes "\<And>x s. x \<in> set xs \<Longrightarrow> I s \<Longrightarrow> I (f x s)" "I s"
  shows "I (fold f xs s)"
  using assms by (induction xs arbitrary: s) auto

text \<open>What follows from the two properties asked of the addition.\<close>

lemma weight_add_mono:
  assumes "weight_add_wf add" "0 \<le> a" "a \<le> a'" "0 \<le> b" "b \<le> b'"
  shows "add a b \<le> add a' b'"
  using assms unfolding weight_add_wf_def by blast

lemma weight_add_zero:
  assumes "weight_add_wf add" "0 \<le> a"
  shows "add a 0 = a" "add 0 a = a"
  using assms unfolding weight_add_wf_def by blast+

lemma weight_add_nonneg:
  assumes "weight_add_wf add" "0 \<le> a" "0 \<le> b"
  shows "0 \<le> add a b"
proof -
  have "add 0 0 \<le> add a b" using assms(2,3) by (intro weight_add_mono [OF assms(1)]) simp_all
  then show ?thesis using weight_add_zero(1) [OF assms(1), of 0] by simp
qed

lemma weight_add_ge:
  assumes "weight_add_wf add" "0 \<le> a" "0 \<le> b"
  shows "a \<le> add a b" "b \<le> add a b"
proof -
  have "add a 0 \<le> add a b" using assms(2,3) by (intro weight_add_mono [OF assms(1)]) simp_all
  then show "a \<le> add a b" using weight_add_zero(1) [OF assms(1,2)] by simp
  have "add 0 b \<le> add a b" using assms(2,3) by (intro weight_add_mono [OF assms(1)]) simp_all
  then show "b \<le> add a b" using weight_add_zero(2) [OF assms(1,3)] by simp
qed

subsection \<open>One relaxation\<close>

lemma length_relax_cell [simp]: "length (relax_cell_in add n mid src dest d) = length d"
  by (simp add: relax_cell_in_def)

lemma cell_relax_cell:
  assumes "length d = n * n" "src < n" "dest < n" "u < n" "v < n"
  shows "cell n (relax_cell_in add n mid src dest d) u v =
           (if u = src \<and> v = dest
            then min (cell n d src dest) (add (cell n d src mid) (cell n d mid dest))
            else cell n d u v)"
proof -
  have i: "src * n + dest < length d" "u * n + v < length d"
    using assms cell_less by simp_all
  show ?thesis
    using assms i by (auto simp: cell_def relax_cell_in_def nth_list_update cell_eq_iff)
qed

lemma relax_cell_in_range:
  assumes "n < 65536" "length d = n * n" "mid < n" "src < n" "dest < n"
  shows "relax_cell add n mid src dest d = Some (relax_cell_in add n mid src dest d)"
proof -
  have i: "src * n + dest < length d" "src * n + mid < length d" "mid * n + dest < length d"
    using assms cell_less by simp_all
  show ?thesis
    using i by (simp add: relax_cell_def relax_cell_in_def Let_def
        vid_mul_row [OF assms(1,4)] vid_mul_row [OF assms(1,3)])
qed

lemma relax_row_in_range:
  fixes d :: "('w::linorder) list"
  assumes "n < 65536" "length d = n * n" "mid < n" "src < n"
  shows "relax_row add n mid src d = Some (relax_row_in add n mid src d) \<and>
         length (relax_row_in add n mid src d) = n * n"
  unfolding relax_row_def relax_row_in_def
proof (rule for_loop_fold [where I = "\<lambda>s. length s = n * n"])
  fix j and s :: "'w list" assume "j \<in> set [0..<n]" "length s = n * n"
  then show "relax_cell add n mid src j s = Some (relax_cell_in add n mid src j s) \<and>
             length (relax_cell_in add n mid src j s) = n * n"
    using relax_cell_in_range [OF assms(1) _ assms(3,4), of s j add] by simp
qed (rule assms(2))

lemma relax_mid_in_range:
  fixes d :: "('w::linorder) list"
  assumes "n < 65536" "length d = n * n" "mid < n"
  shows "relax_mid add n mid d = Some (relax_mid_in add n mid d) \<and>
         length (relax_mid_in add n mid d) = n * n"
  unfolding relax_mid_def relax_mid_in_def
proof (rule for_loop_fold [where I = "\<lambda>s. length s = n * n"])
  fix j and s :: "'w list" assume "j \<in> set [0..<n]" "length s = n * n"
  then show "relax_row add n mid j s = Some (relax_row_in add n mid j s) \<and>
             length (relax_row_in add n mid j s) = n * n"
    using relax_row_in_range [OF assms(1) _ assms(3), of s j add] by simp
qed (rule assms(2))

lemma relax_all_in_range:
  fixes d :: "('w::linorder) list"
  assumes "n < 65536" "length d = n * n"
  shows "for_loop [0..<n] (relax_mid add n) d = Some (fold (relax_mid_in add n) [0..<n] d)"
proof -
  have "for_loop [0..<n] (relax_mid add n) d = Some (fold (relax_mid_in add n) [0..<n] d) \<and>
        length (fold (relax_mid_in add n) [0..<n] d) = n * n"
  proof (rule for_loop_fold [where I = "\<lambda>s. length s = n * n"])
    fix j and s :: "'w list" assume "j \<in> set [0..<n]" "length s = n * n"
    then show "relax_mid add n j s = Some (relax_mid_in add n j s) \<and>
               length (relax_mid_in add n j s) = n * n"
      using relax_mid_in_range [OF assms(1), of s j add] by simp
  qed (rule assms(2))
  then show ?thesis by simp
qed

subsection \<open>Sums along walks\<close>

lemma inner_right_grouping [simp]: "inner (right_grouping xs) = xs"
  by (induction xs) simp_all

lemma group_sum_nonneg:
  assumes "weight_add_wf add" "\<forall>a < n. \<forall>b < n. 0 \<le> c a b"
  shows "u < n \<Longrightarrow> v < n \<Longrightarrow> set (inner t) \<subseteq> {..<n} \<Longrightarrow> 0 \<le> group_sum add c u t v"
proof (induction t arbitrary: u v)
  case Step
  then show ?case using assms(2) by simp
next
  case (Join l m r)
  have m: "m < n" using Join.prems(3) by simp
  have "0 \<le> group_sum add c u l m" using Join.prems by (intro Join.IH(1) m) simp_all
  moreover have "0 \<le> group_sum add c m r v" using Join.prems by (intro Join.IH(2) m) simp_all
  ultimately show ?case using assms(1) by (simp add: weight_add_nonneg)
qed

lemma attained_nonneg:
  assumes "weight_add_wf add" "\<forall>a < n. \<forall>b < n. 0 \<le> c a b" "attained add c n d" "u < n" "v < n"
  shows "0 \<le> cell n d u v"
proof -
  obtain t where "set (inner t) \<subseteq> {..<n}" "cell n d u v = group_sum add c u t v"
    using assms(3,4,5) unfolding attained_def by blast
  then show ?thesis using group_sum_nonneg [OF assms(1,2,4,5)] by simp
qed

lemma attained_relax_cell:
  assumes "attained add c n d" "mid < n" "src < n" "dest < n"
  shows "attained add c n (relax_cell_in add n mid src dest d)"
  unfolding attained_def
proof (intro conjI allI impI)
  show "length (relax_cell_in add n mid src dest d) = n * n"
    using assms(1) by (simp add: attained_def)
next
  fix u v assume uv: "u < n" "v < n"
  have len: "length d = n * n" using assms(1) by (simp add: attained_def)
  have old: "\<exists>t. set (inner t) \<subseteq> {..<n} \<and> cell n d a b = group_sum add c a t b"
    if "a < n" "b < n" for a b
    using assms(1) that by (simp add: attained_def)
  show "\<exists>t. set (inner t) \<subseteq> {..<n} \<and>
            cell n (relax_cell_in add n mid src dest d) u v = group_sum add c u t v"
  proof (cases "u = src \<and> v = dest")
    case False
    then show ?thesis using old [OF uv] cell_relax_cell [OF len assms(3,4) uv] by auto
  next
    case True
    obtain l where l: "set (inner l) \<subseteq> {..<n}" "cell n d src mid = group_sum add c src l mid"
      using old [OF assms(3,2)] by blast
    obtain r where r: "set (inner r) \<subseteq> {..<n}" "cell n d mid dest = group_sum add c mid r dest"
      using old [OF assms(2,4)] by blast
    have new: "cell n (relax_cell_in add n mid src dest d) u v
                 = min (cell n d src dest) (add (cell n d src mid) (cell n d mid dest))"
      using True cell_relax_cell [OF len assms(3,4) uv] by simp
    show ?thesis
    proof (cases "cell n d src dest \<le> add (cell n d src mid) (cell n d mid dest)")
      case le: True
      then show ?thesis using new old [OF assms(3,4)] True by (simp add: min_def)
    next
      case nle: False
      have "add (cell n d src mid) (cell n d mid dest) = group_sum add c src (Join l mid r) dest"
        using l r by simp
      moreover have "set (inner (Join l mid r)) \<subseteq> {..<n}" using l r assms(2) by auto
      moreover have "cell n (relax_cell_in add n mid src dest d) u v
                       = add (cell n d src mid) (cell n d mid dest)"
        using new nle by (simp add: min_def)
      ultimately show ?thesis using True by (intro exI [of _ "Join l mid r"]) simp
    qed
  qed
qed

lemma attained_relax_cells:
  assumes "attained add c n d" "mid < n" "src < n" "j \<le> n"
  shows "attained add c n (fold (relax_cell_in add n mid src) [0..<j] d)"
proof (rule fold_invariant [where I = "attained add c n"])
  fix x s assume "x \<in> set [0..<j]" "attained add c n s"
  then show "attained add c n (relax_cell_in add n mid src x s)"
    using assms by (intro attained_relax_cell) simp_all
qed (rule assms(1))

lemma attained_relax_row:
  assumes "attained add c n d" "mid < n" "src < n"
  shows "attained add c n (relax_row_in add n mid src d)"
  unfolding relax_row_in_def using assms by (intro attained_relax_cells) simp_all

lemma attained_relax_rows:
  assumes "attained add c n d" "mid < n" "i \<le> n"
  shows "attained add c n (fold (relax_row_in add n mid) [0..<i] d)"
proof (rule fold_invariant [where I = "attained add c n"])
  fix x s assume "x \<in> set [0..<i]" "attained add c n s"
  then show "attained add c n (relax_row_in add n mid x s)"
    using assms by (intro attained_relax_row) simp_all
qed (rule assms(1))

lemma attained_relax_mid:
  assumes "attained add c n d" "mid < n"
  shows "attained add c n (relax_mid_in add n mid d)"
  unfolding relax_mid_in_def using assms by (intro attained_relax_rows) simp_all

lemma attained_relax_mids:
  assumes "attained add c n d" "k \<le> n"
  shows "attained add c n (fold (relax_mid_in add n) [0..<k] d)"
proof (rule fold_invariant [where I = "attained add c n"])
  fix x s assume "x \<in> set [0..<k]" "attained add c n s"
  then show "attained add c n (relax_mid_in add n x s)"
    using assms by (intro attained_relax_mid) simp_all
qed (rule assms(1))

subsection \<open>What one round of relaxations achieves\<close>

lemma relax_row_sweep:
  fixes P :: "nat \<Rightarrow> nat \<Rightarrow> 'w::{zero,linorder}"
  assumes wf: "weight_add_wf add" and nn: "\<forall>a < n. \<forall>b < n. 0 \<le> c a b"
    and att: "attained add c n d" and mid: "mid < n" and src: "src < n" and "j \<le> n"
    and P: "\<forall>u < n. \<forall>v < n. cell n d u v \<le> P u v"
  shows "(\<forall>u < n. \<forall>v < n. cell n (fold (relax_cell_in add n mid src) [0..<j] d) u v \<le> cell n d u v) \<and>
         (\<forall>v < j. cell n (fold (relax_cell_in add n mid src) [0..<j] d) src v
                      \<le> add (P src mid) (P mid v))"
  using assms(6)
proof (induction j)
  case 0
  then show ?case by simp
next
  case (Suc j)
  let ?d' = "fold (relax_cell_in add n mid src) [0..<j] d"
  let ?d'' = "relax_cell_in add n mid src j ?d'"
  have j: "j < n" using Suc.prems by simp
  have att': "attained add c n ?d'" using att mid src j by (intro attained_relax_cells) simp_all
  have len: "length ?d' = n * n" using att' by (simp add: attained_def)
  have nn': "0 \<le> cell n ?d' u v" if "u < n" "v < n" for u v
    using wf nn att' that by (rule attained_nonneg)
  have ih: "\<And>u v. u < n \<Longrightarrow> v < n \<Longrightarrow> cell n ?d' u v \<le> cell n d u v"
    "\<And>v. v < j \<Longrightarrow> cell n ?d' src v \<le> add (P src mid) (P mid v)"
    using Suc.IH j by simp_all
  have c: "cell n ?d'' u v =
           (if u = src \<and> v = j
            then min (cell n ?d' src j) (add (cell n ?d' src mid) (cell n ?d' mid j))
            else cell n ?d' u v)" if "u < n" "v < n" for u v
    using cell_relax_cell [OF len src j that] .
  have pre: "cell n ?d' u v \<le> P u v" if "u < n" "v < n" for u v
    using ih(1) [OF that] P that by (meson order_trans)
  have s: "fold (relax_cell_in add n mid src) [0..<Suc j] d = ?d''" by simp
  have b: "cell n ?d'' u v \<le> cell n d u v" if "u < n" "v < n" for u v
    using c [OF that] ih(1) [OF that] by (auto simp: min_le_iff_disj)
  have newcell: "cell n ?d'' src j \<le> add (P src mid) (P mid j)"
  proof -
    have "cell n ?d'' src j \<le> add (cell n ?d' src mid) (cell n ?d' mid j)"
      using c [OF src j] by simp
    also have "\<dots> \<le> add (P src mid) (P mid j)"
      using nn' [OF src mid] pre [OF src mid] nn' [OF mid j] pre [OF mid j]
      by (rule weight_add_mono [OF wf])
    finally show ?thesis .
  qed
  have d: "cell n ?d'' src v \<le> add (P src mid) (P mid v)" if "v < Suc j" for v
  proof (cases "v = j")
    case True
    then show ?thesis using newcell by simp
  next
    case False
    then have "v < j" using that by simp
    then show ?thesis using c [OF src, of v] ih(2) [of v] j False by simp
  qed
  show ?case unfolding s using b d by blast
qed

lemma relax_mid_sweep:
  fixes d :: "('w::{zero,linorder}) list"
  assumes wf: "weight_add_wf add" and nn: "\<forall>a < n. \<forall>b < n. 0 \<le> c a b"
    and att: "attained add c n d" and mid: "mid < n" and "i \<le> n"
  shows "(\<forall>u < n. \<forall>v < n. cell n (fold (relax_row_in add n mid) [0..<i] d) u v \<le> cell n d u v) \<and>
         (\<forall>u < i. \<forall>v < n. cell n (fold (relax_row_in add n mid) [0..<i] d) u v
                              \<le> add (cell n d u mid) (cell n d mid v))"
  using assms(5)
proof (induction i)
  case 0
  then show ?case by simp
next
  case (Suc i)
  let ?d' = "fold (relax_row_in add n mid) [0..<i] d"
  let ?d'' = "relax_row_in add n mid i ?d'"
  have i: "i < n" using Suc.prems by simp
  have att': "attained add c n ?d'" using att mid i by (intro attained_relax_rows) simp_all
  have ih: "\<And>u v. u < n \<Longrightarrow> v < n \<Longrightarrow> cell n ?d' u v \<le> cell n d u v"
    "\<And>u v. u < i \<Longrightarrow> v < n \<Longrightarrow> cell n ?d' u v \<le> add (cell n d u mid) (cell n d mid v)"
    using Suc.IH i by simp_all
  have pre: "\<forall>u < n. \<forall>v < n. cell n ?d' u v \<le> cell n d u v" using ih(1) by blast
  note r = relax_row_sweep [OF wf nn att' mid i order_refl pre, folded relax_row_in_def]
  have s: "fold (relax_row_in add n mid) [0..<Suc i] d = ?d''" by simp
  have dec: "cell n ?d'' u v \<le> cell n ?d' u v" if "u < n" "v < n" for u v
    using r that by blast
  have b: "cell n ?d'' u v \<le> cell n d u v" if "u < n" "v < n" for u v
    using dec [OF that] ih(1) [OF that] by (rule order_trans)
  have c: "cell n ?d'' u v \<le> add (cell n d u mid) (cell n d mid v)" if "u < Suc i" "v < n" for u v
  proof (cases "u = i")
    case True
    then show ?thesis using r that(2) by blast
  next
    case False
    then have u: "u < i" using that by simp
    then have "u < n" using i by simp
    then show ?thesis using dec [OF _ that(2)] ih(2) [OF u that(2)] by (meson order_trans)
  qed
  show ?case unfolding s using b c by blast
qed

lemma relax_mid_bound:
  fixes d :: "('w::{zero,linorder}) list"
  assumes "weight_add_wf add" "\<forall>a < n. \<forall>b < n. 0 \<le> c a b" "attained add c n d"
    "mid < n" "u < n" "v < n"
  shows "cell n (relax_mid_in add n mid d) u v \<le> cell n d u v"
    and "cell n (relax_mid_in add n mid d) u v \<le> add (cell n d u mid) (cell n d mid v)"
  using relax_mid_sweep [OF assms(1-4) order_refl, folded relax_mid_in_def] assms(5,6) by blast+

subsection \<open>Every walk is accounted for\<close>

lemma walk_split:
  fixes c P :: "nat \<Rightarrow> nat \<Rightarrow> 'w::{zero,linorder}"
  assumes wf: "weight_add_wf add" and nonneg: "\<forall>a < n. \<forall>b < n. 0 \<le> c a b"
    and Pnn: "\<forall>a < n. \<forall>b < n. 0 \<le> P a b"
    and below: "\<forall>a < n. \<forall>b < n. \<forall>ys. set ys \<subseteq> {..<k} \<longrightarrow>
                  (\<exists>t. inner t = ys \<and> P a b \<le> group_sum add c a t b)"
    and k: "k < n" and u: "u < n" and v: "v < n" and xs: "set xs \<subseteq> {..<Suc k}"
  shows "\<exists>t. inner t = xs \<and> min (P u v) (add (P u k) (P k v)) \<le> group_sum add c u t v"
proof (cases "k \<in> set xs")
  case False
  then have "set xs \<subseteq> {..<k}" using xs by (auto simp: less_Suc_eq)
  then obtain t where "inner t = xs" "P u v \<le> group_sum add c u t v"
    using below u v by blast
  then show ?thesis by (auto simp: min_le_iff_disj)
next
  case True
  then obtain ys zs where s: "xs = ys @ k # zs" "k \<notin> set ys" by (meson split_list_first)
  have ys: "set ys \<subseteq> {..<k}" using s xs by (auto simp: less_Suc_eq)
  have zs: "set zs \<subseteq> {..<Suc k}" using s xs by auto
  obtain l where l: "inner l = ys" "P u k \<le> group_sum add c u l k"
    using below u k ys by blast
  have "\<exists>r. inner r = zs \<and> P k v \<le> group_sum add c k r v"
  proof (cases "k \<in> set zs")
    case False
    then have "set zs \<subseteq> {..<k}" using zs by (auto simp: less_Suc_eq)
    then show ?thesis using below k v by blast
  next
    case True
    then obtain as bs where t: "zs = as @ k # bs" "k \<notin> set bs" by (meson split_list_last)
    have bs: "set bs \<subseteq> {..<k}" using t zs by (auto simp: less_Suc_eq)
    have as: "set (inner (right_grouping as)) \<subseteq> {..<n}" using t zs k by auto
    obtain r where r: "inner r = bs" "P k v \<le> group_sum add c k r v"
      using below k v bs by blast
    have loop: "0 \<le> group_sum add c k (right_grouping as) k"
      using wf nonneg k k as by (rule group_sum_nonneg)
    have Pkv: "0 \<le> P k v" using Pnn k v by blast
    have "add 0 (P k v) \<le> add (group_sum add c k (right_grouping as) k) (group_sum add c k r v)"
      using order_refl loop Pkv r(2) by (rule weight_add_mono [OF wf])
    then have "P k v \<le> group_sum add c k (Join (right_grouping as) k r) v"
      using weight_add_zero(2) [OF wf Pkv] by simp
    moreover have "inner (Join (right_grouping as) k r) = zs" using t(1) r(1) by simp
    ultimately show ?thesis by blast
  qed
  then obtain r where r: "inner r = zs" "P k v \<le> group_sum add c k r v" by blast
  have Puk: "0 \<le> P u k" and Pkv: "0 \<le> P k v" using Pnn u k v by blast+
  have "add (P u k) (P k v) \<le> add (group_sum add c u l k) (group_sum add c k r v)"
    using Puk l(2) Pkv r(2) by (rule weight_add_mono [OF wf])
  then have "min (P u v) (add (P u k) (P k v)) \<le> group_sum add c u (Join l k r) v"
    by (simp add: min_le_iff_disj)
  moreover have "inner (Join l k r) = xs" using s(1) l(1) r(1) by simp
  ultimately show ?thesis by blast
qed

lemma relax_all_lower:
  fixes d0 :: "('w::{zero,linorder}) list"
  assumes wf: "weight_add_wf add" and nonneg: "\<forall>a < n. \<forall>b < n. 0 \<le> c a b"
    and att: "attained add c n d0"
    and init: "\<forall>a < n. \<forall>b < n. cell n d0 a b \<le> c a b"
    and "k \<le> n"
  shows "\<forall>u < n. \<forall>v < n. \<forall>xs. set xs \<subseteq> {..<k} \<longrightarrow>
           (\<exists>t. inner t = xs \<and>
                cell n (fold (relax_mid_in add n) [0..<k] d0) u v \<le> group_sum add c u t v)"
  using assms(5)
proof (induction k)
  case 0
  have "\<exists>t. inner t = [] \<and> cell n d0 u v \<le> group_sum add c u t v" if "u < n" "v < n" for u v
    using init that by (intro exI [of _ Step]) simp
  then show ?case by simp
next
  case (Suc k)
  let ?d' = "fold (relax_mid_in add n) [0..<k] d0"
  let ?d'' = "relax_mid_in add n k ?d'"
  have k: "k < n" using Suc.prems by simp
  have att': "attained add c n ?d'" using att k by (intro attained_relax_mids) simp_all
  have Pnn: "\<forall>a < n. \<forall>b < n. 0 \<le> cell n ?d' a b"
    using attained_nonneg [OF wf nonneg att'] by blast
  have ih: "\<forall>a < n. \<forall>b < n. \<forall>ys. set ys \<subseteq> {..<k} \<longrightarrow>
              (\<exists>t. inner t = ys \<and> cell n ?d' a b \<le> group_sum add c a t b)"
    using Suc.IH k by simp
  have s: "fold (relax_mid_in add n) [0..<Suc k] d0 = ?d''" by simp
  have b: "\<exists>t. inner t = xs \<and> cell n ?d'' u v \<le> group_sum add c u t v"
    if uv: "u < n" "v < n" "set xs \<subseteq> {..<Suc k}" for u v xs
  proof -
    have le: "cell n ?d'' u v \<le> min (cell n ?d' u v) (add (cell n ?d' u k) (cell n ?d' k v))"
      using relax_mid_bound [OF wf nonneg att' k uv(1,2)] by simp
    obtain t where t: "inner t = xs"
      "min (cell n ?d' u v) (add (cell n ?d' u k) (cell n ?d' k v)) \<le> group_sum add c u t v"
      using walk_split [OF wf nonneg Pnn ih k uv] by blast
    have "cell n ?d'' u v \<le> group_sum add c u t v" using le t(2) by (rule order_trans)
    then show ?thesis using t(1) by blast
  qed
  show ?case unfolding s using b by blast
qed

subsection \<open>The initial cost matrix\<close>

lemma nth_fold_edge_writes:
  assumes "distinct (map f es)" "i < length d"
  shows "fold (\<lambda>e d. d[b + f e := g e]) es d ! i =
           (case filter (\<lambda>e. b + f e = i) es of [] \<Rightarrow> d ! i | e # _ \<Rightarrow> g e)"
  using assms
proof (induction es arbitrary: d)
  case Nil
  then show ?case by simp
next
  case (Cons e es)
  have d: "distinct (map f es)" and notin: "f e \<notin> f ` set es" using Cons.prems(1) by auto
  have len: "i < length (d[b + f e := g e])" using Cons.prems(2) by simp
  note ih = Cons.IH [OF d len]
  show ?case
  proof (cases "b + f e = i")
    case True
    have "\<forall>x \<in> set es. f x \<noteq> f e" using notin by (metis imageI)
    then have "filter (\<lambda>e'. b + f e' = i) es = []"
      using True by (auto simp: filter_empty_conv)
    then show ?thesis using ih True Cons.prems(2) by simp
  next
    case False
    then have "d[b + f e := g e] ! i = d ! i" by simp
    then show ?thesis using ih False by (simp split: list.splits)
  qed
qed

lemma graph_wfD:
  assumes "graph_wf wmax g" "u < vertex_count g"
  shows "distinct (map (\<lambda>e. edges g ! e) (out_edges g u))"
    and "e \<in> set (out_edges g u) \<Longrightarrow>
           edges g ! e < vertex_count g \<and> 0 \<le> weights g ! e \<and> weights g ! e \<le> wmax"
  using assms by (auto simp: graph_wf_def list_all_iff)

lemma edge_weight_SomeD:
  assumes "edge_weight g u v = Some w"
  shows "\<exists>e \<in> set (out_edges g u). edges g ! e = v \<and> weights g ! e = w"
proof -
  obtain e es where f: "filter (\<lambda>e. edges g ! e = v) (out_edges g u) = e # es" "weights g ! e = w"
    using assms by (auto simp: edge_weight_def split: list.splits)
  then have "e \<in> set (filter (\<lambda>e. edges g ! e = v) (out_edges g u))" by simp
  then show ?thesis using f(2) by auto
qed

lemma edge_weight_props:
  assumes "graph_wf wmax g" "u < vertex_count g" "edge_weight g u v = Some w"
  shows "v < vertex_count g" "0 \<le> w" "w \<le> wmax"
  using edge_weight_SomeD [OF assms(3)] graph_wfD(2) [OF assms(1,2)] by auto

lemma cost0_props:
  fixes wmax :: "'w::{zero,linorder}"
  assumes "graph_wf wmax g" "u < vertex_count g"
  shows "0 \<le> cost0 wmax g u v" "cost0 wmax g u v \<le> wmax" "cost0 wmax g u u = 0"
proof -
  have w: "0 \<le> wmax" using assms(1) by (simp add: graph_wf_def)
  show "0 \<le> cost0 wmax g u v" "cost0 wmax g u v \<le> wmax"
    using w edge_weight_props(2,3) [OF assms]
    by (auto simp: cost0_def split: option.splits)
  show "cost0 wmax g u u = 0" by (simp add: cost0_def)
qed

lemma cost0_edge:
  fixes wmax :: "'w::{zero,linorder}"
  assumes "cost0 wmax g u v < wmax" "u \<noteq> v"
  shows "edge_weight g u v = Some (cost0 wmax g u v)"
  using assms by (auto simp: cost0_def split: option.splits)

lemma length_init_row [simp]: "length (init_row_in wmax g src d) = length d"
  by (simp add: init_row_in_def Let_def)

lemma cell_init_row:
  assumes wf: "graph_wf wmax g" and n: "n = vertex_count g"
    and "length d = n * n" "src < n" "u < n" "v < n"
  shows "cell n (init_row_in wmax g src d) u v =
           (if u = src then cost0 wmax g src v else cell n d u v)"
proof -
  let ?es = "out_edges g src"
  let ?d1 = "fold (\<lambda>dest d. d[src * n + dest := wmax]) [0..<n] d"
  let ?d2 = "fold (\<lambda>edge d. d[src * n + edges g ! edge := weights g ! edge]) ?es ?d1"
  have i: "u * n + v < length d" using assms cell_less by simp
  have r: "init_row_in wmax g src d = ?d2[src * n + src := 0]"
    by (simp add: init_row_in_def Let_def n)
  have dist: "distinct (map (\<lambda>e. edges g ! e) ?es)"
    using graph_wfD(1) [OF wf] assms(4) n by simp
  have tgt: "edges g ! e < n" if "e \<in> set ?es" for e
    using graph_wfD(2) [OF wf _ that] assms(4) n by simp
  have d1: "?d1 ! (u * n + v) = (if u = src then wmax else d ! (u * n + v))"
    using i assms(6) by (simp add: nth_fold_write row_range_iff)
  have f: "filter (\<lambda>e. src * n + edges g ! e = u * n + v) ?es
             = (if u = src then filter (\<lambda>e. edges g ! e = v) ?es else [])"
  proof (cases "u = src")
    case True
    then show ?thesis by simp
  next
    case False
    have "\<not> src * n + edges g ! e = u * n + v" if "e \<in> set ?es" for e
      using cell_eq_iff [OF tgt [OF that] assms(6), of src u] False by simp
    then show ?thesis using False by (simp add: filter_empty_conv)
  qed
  have d2: "?d2 ! (u * n + v) =
              (case filter (\<lambda>e. src * n + edges g ! e = u * n + v) ?es of
                 [] \<Rightarrow> ?d1 ! (u * n + v) | e # _ \<Rightarrow> weights g ! e)"
    using dist i by (intro nth_fold_edge_writes) simp_all
  have d2': "?d2 ! (u * n + v) =
               (if u = src then (case edge_weight g src v of None \<Rightarrow> wmax | Some w \<Rightarrow> w)
                else d ! (u * n + v))"
    unfolding d2 f d1 by (simp add: edge_weight_def split: list.splits)
  have l2: "src * n + src < length ?d2"
    using cell_less [OF assms(4,4)] assms(3) by simp
  have eq: "(src * n + src = u * n + v) = (u = src \<and> v = src)"
    using cell_eq_iff [OF assms(4,6), of src u] by auto
  have "(?d2[src * n + src := 0]) ! (u * n + v) =
          (if u = src \<and> v = src then 0 else ?d2 ! (u * n + v))"
    unfolding nth_list_update [OF l2] eq by (rule refl)
  then show ?thesis
    unfolding r cell_def d2' by (auto simp: cost0_def)
qed

lemma length_fold_init_row [simp]: "length (fold (init_row_in wmax g) srcs d) = length d"
  by (induction srcs arbitrary: d) simp_all

lemma cell_fold_init_row:
  assumes wf: "graph_wf wmax g" and n: "n = vertex_count g"
    and "length d = n * n" "k \<le> n" "u < n" "v < n"
  shows "cell n (fold (init_row_in wmax g) [0..<k] d) u v =
           (if u < k then cost0 wmax g u v else cell n d u v)"
  using assms(4)
proof (induction k)
  case 0
  then show ?case by simp
next
  case (Suc k)
  have l: "length (fold (init_row_in wmax g) [0..<k] d) = n * n"
    using assms(3) by simp
  have k: "k < n" using Suc.prems by simp
  show ?case
    using Suc.IH k cell_init_row [OF wf n l k assms(5,6)]
    by (auto simp: less_Suc_eq)
qed

lemma attained_init:
  fixes wmax :: "'w::{zero,linorder}"
  assumes wf: "graph_wf wmax g" and n: "n = vertex_count g" and l: "length d = n * n"
  shows "attained add (cost0 wmax g) n (fold (init_row_in wmax g) [0..<n] d)"
  unfolding attained_def
proof (intro conjI allI impI)
  show "length (fold (init_row_in wmax g) [0..<n] d) = n * n" using l by simp
next
  fix u v assume "u < n" "v < n"
  then have "cell n (fold (init_row_in wmax g) [0..<n] d) u v = group_sum add (cost0 wmax g) u Step v"
    using cell_fold_init_row [OF wf n l le_refl] by simp
  then show "\<exists>t. set (inner t) \<subseteq> {..<n} \<and>
               cell n (fold (init_row_in wmax g) [0..<n] d) u v = group_sum add (cost0 wmax g) u t v"
    by (intro exI [of _ Step]) simp
qed

text \<open>The code's initialisation stays inside the block: the targets of the edges are
  vertices.\<close>

lemma edge_writes_in_range:
  fixes d :: "'w list"
  assumes "length d = n * n" "src < n" "\<forall>e \<in> set es. f e < n"
  shows "for_loop es (\<lambda>edge. store (src * n + f edge) (h edge)) d
           = Some (fold (\<lambda>edge d. d[src * n + f edge := h edge]) es d)"
proof -
  have "for_loop es (\<lambda>edge. store (src * n + f edge) (h edge)) d
          = Some (fold (\<lambda>edge d. d[src * n + f edge := h edge]) es d) \<and>
        length (fold (\<lambda>edge d. d[src * n + f edge := h edge]) es d) = n * n"
  proof (rule for_loop_fold [where I = "\<lambda>s. length s = n * n"])
    fix j and s :: "'w list" assume "j \<in> set es" "length s = n * n"
    then show "store (src * n + f j) (h j) s = Some (s[src * n + f j := h j]) \<and>
               length (s[src * n + f j := h j]) = n * n"
      using cell_less [OF assms(2), of "f j"] assms(3) by (simp add: store_in_range)
  qed (rule assms(1))
  then show ?thesis by simp
qed

lemma init_row_in_range:
  fixes wmax :: "'w::{zero,linorder}"
  assumes wf: "graph_wf wmax g" and n: "n = vertex_count g" "n < 65536"
    and l: "length d = n * n" and src: "src < n"
  shows "init_row wmax g src d = Some (init_row_in wmax g src d)"
proof -
  let ?d1 = "fold (\<lambda>dest d. d[src * n + dest := wmax]) [0..<n] d"
  let ?d2 = "fold (\<lambda>edge d. d[src * n + edges g ! edge := weights g ! edge]) (out_edges g src) ?d1"
  have tgt: "\<forall>e \<in> set (out_edges g src). edges g ! e < n"
    using graph_wfD(2) [OF wf] src n(1) by simp
  have a: "for_loop [0..<n] (\<lambda>dest. store (src * n + dest) wmax) d = Some ?d1"
    using l src by (rule row_writes_in_range)
  have l1: "length ?d1 = n * n" using l by simp
  have b: "for_loop (out_edges g src)
             (\<lambda>edge. store (src * n + edges g ! edge) (weights g ! edge)) ?d1 = Some ?d2"
    using l1 src tgt by (rule edge_writes_in_range)
  have "src * n + src < length ?d2" using cell_less [OF src src] l by simp
  then have c: "store (src * n + src) 0 ?d2 = Some (?d2[src * n + src := 0])"
    by (rule store_in_range)
  have v: "vid_mul src n = src * n" using n(2) src by (rule vid_mul_row)
  show ?thesis
    using a b c
    by (simp add: init_row_def init_row_in_def Let_def v n(1) [symmetric] out_edges_def)
qed

lemma init_rows_in_range:
  fixes wmax :: "'w::{zero,linorder}"
  assumes wf: "graph_wf wmax g" and n: "n = vertex_count g" "n < 65536"
    and l: "length d = n * n"
  shows "for_loop [0..<n] (init_row wmax g) d = Some (fold (init_row_in wmax g) [0..<n] d)"
proof -
  have "for_loop [0..<n] (init_row wmax g) d = Some (fold (init_row_in wmax g) [0..<n] d) \<and>
        length (fold (init_row_in wmax g) [0..<n] d) = n * n"
  proof (rule for_loop_fold [where I = "\<lambda>s. length s = n * n"])
    fix j and s :: "'w list" assume "j \<in> set [0..<n]" "length s = n * n"
    then show "init_row wmax g j s = Some (init_row_in wmax g j s) \<and>
               length (init_row_in wmax g j s) = n * n"
      using init_row_in_range [OF wf n, of s j] by simp
  qed (rule l)
  then show ?thesis by simp
qed

subsection \<open>Paths of the graph and walks over the cost\<close>

lemma is_path_append:
  "is_path g u (xs @ m # ys) v \<longleftrightarrow> is_path g u xs m \<and> is_path g m ys v"
  by (induction xs arbitrary: u) auto

lemma path_weight_is_path: "is_path g u xs v \<longleftrightarrow> path_weight add g u xs v \<noteq> None"
  by (induction xs arbitrary: u) (auto split: option.splits)

lemma path_sum_is_path: "is_path g u (inner t) v \<longleftrightarrow> path_sum add g u t v \<noteq> None"
  by (induction t arbitrary: u v) (auto simp: is_path_append split: option.splits)

lemma is_path_bounds:
  assumes "graph_wf wmax g"
  shows "u < vertex_count g \<Longrightarrow> is_path g u xs v \<Longrightarrow>
           set xs \<subseteq> {..<vertex_count g} \<and> v < vertex_count g"
proof (induction xs arbitrary: u)
  case Nil
  then show ?case using edge_weight_props(1) [OF assms] by auto
next
  case (Cons x xs)
  then obtain w where "edge_weight g u x = Some w" by auto
  then have "x < vertex_count g" using edge_weight_props(1) [OF assms Cons.prems(1)] by simp
  then show ?case using Cons by simp
qed

lemma group_le_path:
  fixes wmax :: "'w::{zero,linorder}"
  assumes wf: "graph_wf wmax g" and ok: "weight_add_wf add"
  shows "u < vertex_count g \<Longrightarrow> path_sum add g u t v = Some s \<Longrightarrow>
           group_sum add (cost0 wmax g) u t v \<le> s"
proof (induction t arbitrary: u v s)
  case Step
  then have e: "edge_weight g u v = Some s" by simp
  have "0 \<le> s" using edge_weight_props(2) [OF wf Step.prems(1) e] .
  then show ?case using e by (simp add: cost0_def)
next
  case (Join l m r)
  let ?n = "vertex_count g"
  let ?c = "cost0 wmax g"
  from Join.prems(2) obtain a b where
    a: "path_sum add g u l m = Some a" and b: "path_sum add g m r v = Some b"
    and s: "s = add a b"
    by (auto split: option.splits)
  have nn: "\<forall>a < ?n. \<forall>b < ?n. 0 \<le> ?c a b" using cost0_props(1) [OF wf] by simp
  have pl: "is_path g u (inner l) m" using a by (simp add: path_sum_is_path [where add = add])
  have bl: "set (inner l) \<subseteq> {..<?n}" "m < ?n"
    using is_path_bounds [OF wf Join.prems(1) pl] by simp_all
  have pr: "is_path g m (inner r) v" using b by (simp add: path_sum_is_path [where add = add])
  have br: "set (inner r) \<subseteq> {..<?n}" "v < ?n"
    using is_path_bounds [OF wf bl(2) pr] by simp_all
  have l0: "0 \<le> group_sum add ?c u l m"
    using ok nn Join.prems(1) bl(2) bl(1) by (rule group_sum_nonneg)
  have r0: "0 \<le> group_sum add ?c m r v"
    using ok nn bl(2) br(2) br(1) by (rule group_sum_nonneg)
  have "add (group_sum add ?c u l m) (group_sum add ?c m r v) \<le> add a b"
    using l0 Join.IH(1) [OF Join.prems(1) a] r0 Join.IH(2) [OF bl(2) b]
    by (rule weight_add_mono [OF ok])
  then show ?case using s by simp
qed

lemma walk_to_path:
  fixes wmax :: "'w::{zero,linorder}"
  assumes wf: "graph_wf wmax g" and ok: "weight_add_wf add"
  shows "u < vertex_count g \<Longrightarrow> v < vertex_count g \<Longrightarrow>
           set (inner t) \<subseteq> {..<vertex_count g} \<Longrightarrow>
           group_sum add (cost0 wmax g) u t v < wmax \<Longrightarrow>
           (u = v \<and> group_sum add (cost0 wmax g) u t v = 0) \<or>
           (\<exists>t'. path_sum add g u t' v = Some (group_sum add (cost0 wmax g) u t v))"
proof (induction t arbitrary: u v)
  case Step
  show ?case
  proof (cases "u = v")
    case True
    then show ?thesis by (simp add: cost0_def)
  next
    case False
    have "cost0 wmax g u v < wmax" using Step.prems(4) by simp
    then have "edge_weight g u v = Some (cost0 wmax g u v)" using False by (rule cost0_edge)
    then have "path_sum add g u Step v = Some (group_sum add (cost0 wmax g) u Step v)" by simp
    then show ?thesis by blast
  qed
next
  case (Join l m r)
  let ?n = "vertex_count g"
  let ?c = "cost0 wmax g"
  let ?a = "group_sum add ?c u l m"
  let ?b = "group_sum add ?c m r v"
  have m: "m < ?n" and il: "set (inner l) \<subseteq> {..<?n}" and ir: "set (inner r) \<subseteq> {..<?n}"
    using Join.prems(3) by simp_all
  have nn: "\<forall>a < ?n. \<forall>b < ?n. 0 \<le> ?c a b" using cost0_props(1) [OF wf] by simp
  have a0: "0 \<le> ?a" using ok nn Join.prems(1) m il by (rule group_sum_nonneg)
  have b0: "0 \<le> ?b" using ok nn m Join.prems(2) ir by (rule group_sum_nonneg)
  have tot: "add ?a ?b < wmax" using Join.prems(4) by simp
  have "?a \<le> add ?a ?b" "?b \<le> add ?a ?b" using weight_add_ge [OF ok a0 b0] by simp_all
  then have alt: "?a < wmax" and blt: "?b < wmax" using tot by simp_all
  note ihl = Join.IH(1) [OF Join.prems(1) m il alt]
  note ihr = Join.IH(2) [OF m Join.prems(2) ir blt]
  show ?case
  proof (cases "u = m \<and> ?a = 0")
    case True
    then have z: "?a = 0" by blast
    have s: "add ?a ?b = ?b" unfolding z by (rule weight_add_zero(2) [OF ok b0])
    show ?thesis using ihr True unfolding group_sum.simps s by blast
  next
    case nl: False
    then obtain tl where tl: "path_sum add g u tl m = Some ?a" using ihl by blast
    show ?thesis
    proof (cases "m = v \<and> ?b = 0")
      case True
      then have z: "?b = 0" by blast
      have s: "add ?a ?b = ?a" unfolding z by (rule weight_add_zero(1) [OF ok a0])
      show ?thesis using tl True unfolding group_sum.simps s by blast
    next
      case False
      then obtain tr where tr: "path_sum add g m tr v = Some ?b" using ihr by blast
      have "path_sum add g u (Join tl m tr) v = Some (add ?a ?b)" using tl tr by simp
      then show ?thesis unfolding group_sum.simps by blast
    qed
  qed
qed

text \<open>Where the addition is associative, the grouping does not matter.\<close>

lemma path_weight_append:
  assumes "\<forall>a b c. add (add a b) c = add a (add b c)"
  shows "path_weight add g u (xs @ m # ys) v =
           (case path_weight add g u xs m of
              None \<Rightarrow> None
            | Some a \<Rightarrow> (case path_weight add g m ys v of
                          None \<Rightarrow> None | Some b \<Rightarrow> Some (add a b)))"
  using assms by (induction xs arbitrary: u) (auto split: option.splits)

lemma path_sum_weight:
  assumes "\<forall>a b c. add (add a b) c = add a (add b c)"
  shows "path_sum add g u t v = path_weight add g u (inner t) v"
  by (induction t arbitrary: u v)
     (simp_all add: path_weight_append [OF assms] split: option.splits)

subsection \<open>The result of the relaxations\<close>

lemma inner_Nil: "inner t = [] \<longleftrightarrow> t = Step"
  by (cases t) simp_all

lemma floyd_warshall:
  fixes wmax :: "'w::{zero,linorder}"
  assumes wf: "graph_wf wmax g" and ok: "weight_add_wf add"
    and n: "n = vertex_count g" and l: "length d0 = n * n"
    and d: "d = fold (relax_mid_in add n) [0..<n] (fold (init_row_in wmax g) [0..<n] d0)"
    and u: "u < n" and v: "v < n"
  shows "length d = n * n"
    and "cell n d u u = 0"
    and "cell n d u v \<le> wmax"
    and "is_path g u xs v \<Longrightarrow>
           \<exists>t s. inner t = xs \<and> path_sum add g u t v = Some s \<and> cell n d u v \<le> s"
    and "u \<noteq> v \<Longrightarrow> cell n d u v < wmax \<Longrightarrow> \<exists>t. path_sum add g u t v = Some (cell n d u v)"
proof -
  let ?c = "cost0 wmax g"
  let ?d1 = "fold (init_row_in wmax g) [0..<n] d0"
  have c1: "cell n ?d1 a b = ?c a b" if "a < n" "b < n" for a b
    using cell_fold_init_row [OF wf n l le_refl that] that by simp
  have nn: "\<forall>a < n. \<forall>b < n. 0 \<le> ?c a b" using cost0_props(1) [OF wf] n by simp
  have att1: "attained add ?c n ?d1" using wf n l by (rule attained_init)
  have init: "\<forall>a < n. \<forall>b < n. cell n ?d1 a b \<le> ?c a b" using c1 by simp
  have att: "attained add ?c n d"
    unfolding d using att1 by (rule attained_relax_mids) simp
  have low: "\<exists>t. inner t = ys \<and> cell n d a b \<le> group_sum add ?c a t b"
    if "a < n" "b < n" "set ys \<subseteq> {..<n}" for a b ys
    using relax_all_lower [OF ok nn att1 init le_refl] that unfolding d by blast
  have direct: "cell n d a b \<le> ?c a b" if ab: "a < n" "b < n" for a b
  proof -
    obtain t where "inner t = []" "cell n d a b \<le> group_sum add ?c a t b"
      using low [OF ab, of "[]"] by auto
    then show ?thesis by (simp add: inner_Nil)
  qed
  show "length d = n * n" using att by (simp add: attained_def)
  show "cell n d u u = 0"
  proof -
    have "cell n d u u \<le> 0" using direct [OF u u] by (simp add: cost0_def)
    moreover have "0 \<le> cell n d u u" using ok nn att u u by (rule attained_nonneg)
    ultimately show ?thesis by simp
  qed
  show "cell n d u v \<le> wmax"
  proof -
    have "cell n d u v \<le> ?c u v" using direct [OF u v] .
    also have "\<dots> \<le> wmax" using cost0_props(2) [OF wf] u n by simp
    finally show ?thesis .
  qed
  show "\<exists>t s. inner t = xs \<and> path_sum add g u t v = Some s \<and> cell n d u v \<le> s"
    if p: "is_path g u xs v"
  proof -
    have b: "set xs \<subseteq> {..<n}" using is_path_bounds [OF wf _ p] u n by simp
    obtain t where t: "inner t = xs" "cell n d u v \<le> group_sum add ?c u t v"
      using low [OF u v b] by blast
    have "is_path g u (inner t) v" using p t(1) by simp
    then have "path_sum add g u t v \<noteq> None"
      using path_sum_is_path [where add = add] by blast
    then obtain s where s: "path_sum add g u t v = Some s" by blast
    have "group_sum add ?c u t v \<le> s" using group_le_path [OF wf ok _ s] u n by simp
    then have "cell n d u v \<le> s" using t(2) by simp
    then show ?thesis using t(1) s by blast
  qed
  show "\<exists>t. path_sum add g u t v = Some (cell n d u v)"
    if ne: "u \<noteq> v" and lt: "cell n d u v < wmax"
  proof -
    obtain t where t: "set (inner t) \<subseteq> {..<n}" "cell n d u v = group_sum add ?c u t v"
      using att u v unfolding attained_def by blast
    have "(u = v \<and> group_sum add ?c u t v = 0) \<or>
          (\<exists>t'. path_sum add g u t' v = Some (group_sum add ?c u t v))"
      using walk_to_path [OF wf ok, of u v t] u v n t lt by simp
    then show ?thesis using ne t(2) by auto
  qed
qed

lemma apsp_cpu_in_range:
  fixes wmax :: "'w::{zero,linorder}"
  assumes wf: "graph_wf wmax g" and "weighted g" "2 \<le> vertex_count g"
    and small: "vertex_count g < 65536" and "edge_count g \<noteq> 0" "malloc_ok env"
  shows "apsp_cpu wmax env (Some g) p =
           Return (SUCCESS, Some (fold (relax_mid_in (weight_add env) (vertex_count g))
             [0..<vertex_count g]
             (fold (init_row_in wmax g) [0..<vertex_count g]
                (map (malloc_junk env) [0..<vertex_count g * vertex_count g]))))"
proof -
  let ?n = "vertex_count g"
  let ?j = "map (malloc_junk env) [0..<?n * ?n]"
  let ?d1 = "fold (init_row_in wmax g) [0..<?n] ?j"
  have c: "check_special_cases wmax env (Some g) p = Return (SUCCESS, p, False)"
    using assms(2,3,5) by (simp add: check_special_cases_def Let_def)
  have m: "totem_malloc env (vid_mul ?n ?n) = Some ?j"
    using assms(6) by (simp add: totem_malloc_def vid_mul_square [OF small])
  have i: "for_loop [0..<?n] (init_row wmax g) ?j = Some ?d1"
    using wf refl small by (rule init_rows_in_range) simp
  have r: "for_loop [0..<?n] (relax_mid (weight_add env) ?n) ?d1
             = Some (fold (relax_mid_in (weight_add env) ?n) [0..<?n] ?d1)"
    using small by (rule relax_all_in_range) simp
  show ?thesis by (simp add: apsp_cpu_def Let_def c m i r)
qed

lemma no_out_edges: "out_edges g u = [] \<Longrightarrow> \<not> is_path g u xs v"
  by (cases xs) (simp_all add: edge_weight_def)

text \<open>The two additions of the concrete environments meet what is asked of an
  addition; the rounding one is not associative.\<close>

lemma plus_wf: "weight_add_wf ((+) :: nat \<Rightarrow> nat \<Rightarrow> nat)"
  by (simp add: weight_add_wf_def)

lemma round_add_mono:
  assumes "a \<le> a'" "b \<le> b'"
  shows "round_add a b \<le> round_add a' b'"
  using assms unfolding round_add_def by (auto split: if_splits)

lemma round_add_wf: "weight_add_wf round_add"
proof -
  have a: "\<forall>a a' b b'. 0 \<le> a \<and> a \<le> a' \<and> 0 \<le> b \<and> b \<le> b'
             \<longrightarrow> round_add a b \<le> round_add a' b'"
    by (simp add: round_add_mono)
  have b: "\<forall>a. 0 \<le> a \<longrightarrow> round_add a 0 = a \<and> round_add 0 a = a"
    by (simp add: round_add_def)
  show ?thesis unfolding weight_add_wf_def using a b by blast
qed

lemma round_add_not_assoc: "round_add (round_add 1 1) 16 \<noteq> round_add 1 (round_add 1 16)"
  by (simp add: round_add_def)

lemma path3_wf: "graph_wf 100 path3"
  by (simp add: graph_wf_def path3_def out_edges_def upt_rec)

lemma zigzag4_wf: "graph_wf 100 zigzag4"
  by (simp add: graph_wf_def zigzag4_def out_edges_def upt_rec)

lemma init_row_wraps: "init_row wmax edge65536 0 [] = None"
  by (simp add: init_row_def edge65536_def vid_mul_def store_def for_loop_first_None)

text \<open>
  C10, as stated, fails in three places. (1) The entries start at \<^verbatim>\<open>WEIGHT_MAX\<close> and only
  ever get smaller, so the entry of a reachable pair is capped there: with
  \<^verbatim>\<open>WEIGHT_MAX\<close> = 10 and the path 0 -> 1 -> 2 of weights 6 and 6, the only path from 0
  to 2 has total 12 and the entry \<open>(0, 2)\<close> is 10, neither the minimum total nor the mark
  of an unreachable vertex. (2) The entry is a sum as the machine adds, grouped as the
  relaxations group it: with an addition that rounds, on the path 0 -> 2 -> 1 -> 3 of
  weights 1, 1 and 16 (every weight and the total 18 being values the addition never
  rounds away), the entry \<open>(0, 3)\<close> is 16, below the total of the only path. (3) The size
  of the matrix is computed in \<^verbatim>\<open>vid_t\<close>: for a weighted graph of 65536 vertices and one
  edge the request is for no entry at all, and the run assigns outside the block instead
  of returning a matrix.
\<close>

theorem apsp_cpu_not_minimum:
  "graph_wf 10 path3 \<and> path_weight (+) path3 0 [1] 2 = Some 12 \<and>
   apsp_cpu 10 env_no_device (Some path3) None =
     Return (SUCCESS, Some [0, 6, 10, 10, 0, 6, 10, 10, 0]) \<and>
   graph_wf 100 zigzag4 \<and> path_weight (+) zigzag4 0 [2, 1] 3 = Some 18 \<and>
   apsp_cpu 100 env_rounding (Some zigzag4) None =
     Return (SUCCESS, Some [0, 2, 1, 16, 100, 0, 100, 16, 100, 1, 0, 16, 100, 100, 100, 0]) \<and>
   weighted edge65536 \<and> vertex_count edge65536 = 65536 \<and> edge_count edge65536 = 1 \<and>
   apsp_cpu 100 env_no_device (Some edge65536) None = Undefined"
proof -
  have a: "graph_wf 10 path3 \<and> path_weight (+) path3 0 [1] 2 = Some 12"
    by (simp add: graph_wf_def path3_def out_edges_def edge_weight_def upt_rec)
  have b: "apsp_cpu 10 env_no_device (Some path3) None =
             Return (SUCCESS, Some [0, 6, 10, 10, 0, 6, 10, 10, 0])"
    by (simp add: path3_def upt_rec apsp_cpu_def check_special_cases_def totem_malloc_def
          env_no_device_def init_row_def relax_mid_def relax_row_def relax_cell_def
          store_def vid_mul_def)
  have c: "graph_wf 100 zigzag4 \<and> path_weight (+) zigzag4 0 [2, 1] 3 = Some 18"
    by (simp add: graph_wf_def zigzag4_def out_edges_def edge_weight_def upt_rec)
  have d: "apsp_cpu 100 env_rounding (Some zigzag4) None =
             Return (SUCCESS,
               Some [0, 2, 1, 16, 100, 0, 100, 16, 100, 1, 0, 16, 100, 100, 100, 0])"
    by (simp add: zigzag4_def upt_rec apsp_cpu_def check_special_cases_def totem_malloc_def
          env_rounding_def init_row_def relax_mid_def relax_row_def relax_cell_def
          store_def vid_mul_def round_add_def)
  have e: "weighted edge65536 \<and> vertex_count edge65536 = 65536 \<and> edge_count edge65536 = 1"
    by (simp add: edge65536_def)
  have f: "check_special_cases 100 env_no_device (Some edge65536) None
             = Return (SUCCESS, None, False)"
    by (simp add: check_special_cases_def edge65536_def)
  have m: "totem_malloc env_no_device (vid_mul 65536 65536) = Some []"
    by (simp add: totem_malloc_def env_no_device_def vid_mul_def)
  have g: "apsp_cpu 100 env_no_device (Some edge65536) None = Undefined"
    unfolding apsp_cpu_def f by (simp add: e m init_row_wraps for_loop_first_None)
  from a b c d e g show ?thesis by simp
qed

text \<open>
  C10, amended: for every weighted graph with at least 2 and fewer than 65536 vertices
  and at least 1 edge, whose row offsets and edge targets are within the arrays, with no
  two edges of a vertex to the same target and every weight between 0 and
  \<^verbatim>\<open>WEIGHT_MAX\<close>, when the host allocation succeeds and the addition of weights is
  monotone with 0 neutral on non-negative weights, \<^verbatim>\<open>apsp_cpu\<close> returns \<^verbatim>\<open>SUCCESS\<close> and a
  \<open>vertex_count\<close> by \<open>vertex_count\<close> matrix in which entry \<open>(u, u)\<close> is 0 (whatever
  self-loops there are) and entry \<open>(u, v)\<close> is at most \<^verbatim>\<open>WEIGHT_MAX\<close>; is \<^verbatim>\<open>WEIGHT_MAX\<close>
  when \<open>v \<noteq> u\<close> is unreachable from \<open>u\<close>; is at most the total of every path from \<open>u\<close> to
  \<open>v\<close> under some grouping of its additions; and, when it is below \<^verbatim>\<open>WEIGHT_MAX\<close> with
  \<open>v \<noteq> u\<close>, is the total of some path from \<open>u\<close> to \<open>v\<close> under some grouping. Where the
  addition is associative, as an exact one is, the entry is therefore the smaller of
  \<^verbatim>\<open>WEIGHT_MAX\<close> and the minimum total weight over all paths from \<open>u\<close> to \<open>v\<close>.
\<close>

theorem apsp_cpu_shortest_paths:
  fixes wmax :: "'w::{zero,linorder}"
  assumes "graph_wf wmax g" "weighted g" "2 \<le> vertex_count g" "vertex_count g < 65536"
    "edge_count g \<noteq> 0" "malloc_ok env" "weight_add_wf (weight_add env)"
  shows "\<exists>d. apsp_cpu wmax env (Some g) p = Return (SUCCESS, Some d) \<and>
           length d = vertex_count g * vertex_count g \<and>
           (\<forall>u < vertex_count g. \<forall>v < vertex_count g.
              cell (vertex_count g) d u u = 0 \<and>
              cell (vertex_count g) d u v \<le> wmax \<and>
              (u \<noteq> v \<and> (\<forall>xs. \<not> is_path g u xs v) \<longrightarrow>
                 cell (vertex_count g) d u v = wmax) \<and>
              (\<forall>xs. is_path g u xs v \<longrightarrow>
                 (\<exists>t s. inner t = xs \<and> path_sum (weight_add env) g u t v = Some s \<and>
                        cell (vertex_count g) d u v \<le> s)) \<and>
              (u \<noteq> v \<and> cell (vertex_count g) d u v < wmax \<longrightarrow>
                 (\<exists>t. path_sum (weight_add env) g u t v = Some (cell (vertex_count g) d u v))) \<and>
              ((\<forall>a b c. weight_add env (weight_add env a b) c
                          = weight_add env a (weight_add env b c)) \<longrightarrow>
                 (\<forall>xs s. path_weight (weight_add env) g u xs v = Some s \<longrightarrow>
                    cell (vertex_count g) d u v \<le> s) \<and>
                 (u \<noteq> v \<and> cell (vertex_count g) d u v < wmax \<longrightarrow>
                    (\<exists>xs. path_weight (weight_add env) g u xs v
                            = Some (cell (vertex_count g) d u v)))))"
proof -
  let ?n = "vertex_count g"
  let ?add = "weight_add env"
  let ?j = "map (malloc_junk env) [0..<?n * ?n]"
  let ?d = "fold (relax_mid_in ?add ?n) [0..<?n] (fold (init_row_in wmax g) [0..<?n] ?j)"
  have l: "length ?j = ?n * ?n" by simp
  note fw = floyd_warshall [OF assms(1,7) refl l refl]
  have r: "apsp_cpu wmax env (Some g) p = Return (SUCCESS, Some ?d)"
    using assms(1-6) by (rule apsp_cpu_in_range)
  have pos: "0 < ?n" using assms(3) by simp
  have len: "length ?d = ?n * ?n" by (rule fw(1) [OF pos pos])
  have un: "cell ?n ?d u v = wmax"
    if uv: "u < ?n" "v < ?n" "u \<noteq> v" and no: "\<forall>xs. \<not> is_path g u xs v" for u v
  proof -
    have "\<not> cell ?n ?d u v < wmax"
    proof
      assume "cell ?n ?d u v < wmax"
      then obtain t where "path_sum ?add g u t v = Some (cell ?n ?d u v)"
        using fw(5) [OF uv] by blast
      then have "is_path g u (inner t) v" by (simp add: path_sum_is_path [where add = ?add])
      then show False using no by blast
    qed
    then show ?thesis using fw(3) [OF uv(1,2)] by simp
  qed
  have ex: "(\<forall>xs s. path_weight ?add g u xs v = Some s \<longrightarrow> cell ?n ?d u v \<le> s) \<and>
            (u \<noteq> v \<and> cell ?n ?d u v < wmax \<longrightarrow>
               (\<exists>xs. path_weight ?add g u xs v = Some (cell ?n ?d u v)))"
    if uv: "u < ?n" "v < ?n" and assoc: "\<forall>a b c. ?add (?add a b) c = ?add a (?add b c)"
    for u v
  proof (intro conjI allI impI)
    fix xs s assume p: "path_weight ?add g u xs v = Some s"
    then have "is_path g u xs v" by (simp add: path_weight_is_path [where add = ?add])
    then obtain t s' where t: "inner t = xs" "path_sum ?add g u t v = Some s'"
      "cell ?n ?d u v \<le> s'"
      using fw(4) [OF uv] by blast
    have "s' = s" using t(1,2) p path_sum_weight [OF assoc, of g u t v] by simp
    then show "cell ?n ?d u v \<le> s" using t(3) by simp
  next
    assume "u \<noteq> v \<and> cell ?n ?d u v < wmax"
    then obtain t where "path_sum ?add g u t v = Some (cell ?n ?d u v)"
      using fw(5) [OF uv] by blast
    then have "path_weight ?add g u (inner t) v = Some (cell ?n ?d u v)"
      using path_sum_weight [OF assoc, of g u t v] by simp
    then show "\<exists>xs. path_weight ?add g u xs v = Some (cell ?n ?d u v)" by blast
  qed
  have "cell ?n ?d u u = 0 \<and> cell ?n ?d u v \<le> wmax \<and>
      (u \<noteq> v \<and> (\<forall>xs. \<not> is_path g u xs v) \<longrightarrow> cell ?n ?d u v = wmax) \<and>
      (\<forall>xs. is_path g u xs v \<longrightarrow>
         (\<exists>t s. inner t = xs \<and> path_sum ?add g u t v = Some s \<and> cell ?n ?d u v \<le> s)) \<and>
      (u \<noteq> v \<and> cell ?n ?d u v < wmax \<longrightarrow>
         (\<exists>t. path_sum ?add g u t v = Some (cell ?n ?d u v))) \<and>
      ((\<forall>a b c. ?add (?add a b) c = ?add a (?add b c)) \<longrightarrow>
         (\<forall>xs s. path_weight ?add g u xs v = Some s \<longrightarrow> cell ?n ?d u v \<le> s) \<and>
         (u \<noteq> v \<and> cell ?n ?d u v < wmax \<longrightarrow>
            (\<exists>xs. path_weight ?add g u xs v = Some (cell ?n ?d u v))))"
    if uv: "u < ?n" "v < ?n" for u v
  proof (intro conjI)
    show "cell ?n ?d u u = 0" by (rule fw(2) [OF uv])
    show "cell ?n ?d u v \<le> wmax" by (rule fw(3) [OF uv])
    show "u \<noteq> v \<and> (\<forall>xs. \<not> is_path g u xs v) \<longrightarrow> cell ?n ?d u v = wmax"
      using un [OF uv] by blast
    show "\<forall>xs. is_path g u xs v \<longrightarrow>
            (\<exists>t s. inner t = xs \<and> path_sum ?add g u t v = Some s \<and> cell ?n ?d u v \<le> s)"
      using fw(4) [OF uv] by blast
    show "u \<noteq> v \<and> cell ?n ?d u v < wmax \<longrightarrow>
            (\<exists>t. path_sum ?add g u t v = Some (cell ?n ?d u v))"
      using fw(5) [OF uv] by blast
    show "(\<forall>a b c. ?add (?add a b) c = ?add a (?add b c)) \<longrightarrow>
            (\<forall>xs s. path_weight ?add g u xs v = Some s \<longrightarrow> cell ?n ?d u v \<le> s) \<and>
            (u \<noteq> v \<and> cell ?n ?d u v < wmax \<longrightarrow>
               (\<exists>xs. path_weight ?add g u xs v = Some (cell ?n ?d u v)))"
      using ex [OF uv] by (intro impI)
  qed
  then have "\<forall>u < ?n. \<forall>v < ?n. cell ?n ?d u u = 0 \<and> cell ?n ?d u v \<le> wmax \<and>
      (u \<noteq> v \<and> (\<forall>xs. \<not> is_path g u xs v) \<longrightarrow> cell ?n ?d u v = wmax) \<and>
      (\<forall>xs. is_path g u xs v \<longrightarrow>
         (\<exists>t s. inner t = xs \<and> path_sum ?add g u t v = Some s \<and> cell ?n ?d u v \<le> s)) \<and>
      (u \<noteq> v \<and> cell ?n ?d u v < wmax \<longrightarrow>
         (\<exists>t. path_sum ?add g u t v = Some (cell ?n ?d u v))) \<and>
      ((\<forall>a b c. ?add (?add a b) c = ?add a (?add b c)) \<longrightarrow>
         (\<forall>xs s. path_weight ?add g u xs v = Some s \<longrightarrow> cell ?n ?d u v \<le> s) \<and>
         (u \<noteq> v \<and> cell ?n ?d u v < wmax \<longrightarrow>
            (\<exists>xs. path_weight ?add g u xs v = Some (cell ?n ?d u v))))"
    by (intro allI impI)
  with r len show ?thesis by (intro exI [of _ ?d] conjI)
qed

text \<open>The witness: the path 0 -> 1 -> 2 under the exact addition, where the entry
  \<open>(0, 2)\<close> is at most the path's total 12 and vertex 0 is unreachable from vertex 2; and
  the path 0 -> 2 -> 1 -> 3 under the rounding addition.\<close>

theorem apsp_cpu_shortest_paths_witness:
  "graph_wf 100 path3 \<and> weighted path3 \<and> 2 \<le> vertex_count path3 \<and>
   vertex_count path3 < 65536 \<and> edge_count path3 \<noteq> 0 \<and> malloc_ok env_no_device \<and>
   weight_add_wf (weight_add env_no_device) \<and>
   (\<exists>d. apsp_cpu 100 env_no_device (Some path3) None = Return (SUCCESS, Some d) \<and>
        length d = 9 \<and> cell 3 d 1 1 = 0 \<and> cell 3 d 2 0 = 100 \<and> cell 3 d 0 2 \<le> 12) \<and>
   graph_wf 100 zigzag4 \<and> weighted zigzag4 \<and> 2 \<le> vertex_count zigzag4 \<and>
   vertex_count zigzag4 < 65536 \<and> edge_count zigzag4 \<noteq> 0 \<and> malloc_ok env_rounding \<and>
   weight_add_wf (weight_add env_rounding) \<and>
   (\<exists>d. apsp_cpu 100 env_rounding (Some zigzag4) None = Return (SUCCESS, Some d) \<and>
        length d = 16 \<and> cell 4 d 0 0 = 0 \<and> cell 4 d 0 3 \<le> 100 \<and> cell 4 d 3 0 = 100)"
proof -
  have h: "weighted path3" "2 \<le> vertex_count path3" "vertex_count path3 < 65536"
    "edge_count path3 \<noteq> 0" "malloc_ok env_no_device"
    by (simp_all add: path3_def env_no_device_def)
  have a: "weight_add env_no_device = (+)" by (simp add: env_no_device_def)
  have aw: "weight_add_wf (weight_add env_no_device)" unfolding a by (rule plus_wf)
  have n: "vertex_count path3 = 3" by (simp add: path3_def)
  have p: "path_weight (+) path3 0 [1] 2 = Some 12"
    by (simp add: edge_weight_def out_edges_def path3_def upt_rec)
  have no: "\<forall>xs. \<not> is_path path3 2 xs 0"
    by (simp add: no_out_edges out_edges_def path3_def)
  obtain d where d: "apsp_cpu 100 env_no_device (Some path3) None = Return (SUCCESS, Some d)"
    "length d = 3 * 3"
    "\<forall>u < 3. \<forall>v < 3. cell 3 d u u = 0 \<and> cell 3 d u v \<le> 100 \<and>
       (u \<noteq> v \<and> (\<forall>xs. \<not> is_path path3 u xs v) \<longrightarrow> cell 3 d u v = 100) \<and>
       (\<forall>xs. is_path path3 u xs v \<longrightarrow>
          (\<exists>t s. inner t = xs \<and> path_sum (+) path3 u t v = Some s \<and> cell 3 d u v \<le> s)) \<and>
       (u \<noteq> v \<and> cell 3 d u v < 100 \<longrightarrow> (\<exists>t. path_sum (+) path3 u t v = Some (cell 3 d u v))) \<and>
       ((\<forall>a b c :: nat. a + b + c = a + (b + c)) \<longrightarrow>
          (\<forall>xs s. path_weight (+) path3 u xs v = Some s \<longrightarrow> cell 3 d u v \<le> s) \<and>
          (u \<noteq> v \<and> cell 3 d u v < 100 \<longrightarrow>
             (\<exists>xs. path_weight (+) path3 u xs v = Some (cell 3 d u v))))"
    using apsp_cpu_shortest_paths [OF path3_wf h aw, of None] unfolding n a by blast
  have d1: "cell 3 d 1 1 = 0" using d(3) [rule_format, of 1 1] by simp
  have d2: "cell 3 d 2 0 = 100" using d(3) [rule_format, of 2 0] no by simp
  have d3: "cell 3 d 0 2 \<le> 12"
  proof -
    have "\<forall>xs s. path_weight (+) path3 0 xs 2 = Some s \<longrightarrow> cell 3 d 0 2 \<le> s"
      using d(3) [rule_format, of 0 2] by (simp add: add.assoc)
    then show ?thesis using p by blast
  qed
  have h': "weighted zigzag4" "2 \<le> vertex_count zigzag4" "vertex_count zigzag4 < 65536"
    "edge_count zigzag4 \<noteq> 0" "malloc_ok env_rounding"
    by (simp_all add: zigzag4_def env_rounding_def)
  have a': "weight_add env_rounding = round_add" by (simp add: env_rounding_def)
  have aw': "weight_add_wf (weight_add env_rounding)" unfolding a' by (rule round_add_wf)
  have n': "vertex_count zigzag4 = 4" by (simp add: zigzag4_def)
  have no': "\<forall>xs. \<not> is_path zigzag4 3 xs 0"
    by (simp add: no_out_edges out_edges_def zigzag4_def)
  obtain e where e: "apsp_cpu 100 env_rounding (Some zigzag4) None = Return (SUCCESS, Some e)"
    "length e = 4 * 4"
    "\<forall>u < 4. \<forall>v < 4. cell 4 e u u = 0 \<and> cell 4 e u v \<le> 100 \<and>
       (u \<noteq> v \<and> (\<forall>xs. \<not> is_path zigzag4 u xs v) \<longrightarrow> cell 4 e u v = 100) \<and>
       (\<forall>xs. is_path zigzag4 u xs v \<longrightarrow>
          (\<exists>t s. inner t = xs \<and> path_sum round_add zigzag4 u t v = Some s \<and>
                 cell 4 e u v \<le> s)) \<and>
       (u \<noteq> v \<and> cell 4 e u v < 100 \<longrightarrow>
          (\<exists>t. path_sum round_add zigzag4 u t v = Some (cell 4 e u v))) \<and>
       ((\<forall>a b c. round_add (round_add a b) c = round_add a (round_add b c)) \<longrightarrow>
          (\<forall>xs s. path_weight round_add zigzag4 u xs v = Some s \<longrightarrow> cell 4 e u v \<le> s) \<and>
          (u \<noteq> v \<and> cell 4 e u v < 100 \<longrightarrow>
             (\<exists>xs. path_weight round_add zigzag4 u xs v = Some (cell 4 e u v))))"
    using apsp_cpu_shortest_paths [OF zigzag4_wf h' aw', of None] unfolding n' a' by blast
  have e1: "cell 4 e 0 0 = 0" using e(3) [rule_format, of 0 0] by simp
  have e2: "cell 4 e 0 3 \<le> 100" using e(3) [rule_format, of 0 3] by simp
  have e3: "cell 4 e 3 0 = 100" using e(3) [rule_format, of 3 0] no' by simp
  have one: "\<exists>d. apsp_cpu 100 env_no_device (Some path3) None = Return (SUCCESS, Some d) \<and>
        length d = 9 \<and> cell 3 d 1 1 = 0 \<and> cell 3 d 2 0 = 100 \<and> cell 3 d 0 2 \<le> 12"
    using d(1,2) d1 d2 d3 by (intro exI [of _ d]) simp
  have two: "\<exists>d. apsp_cpu 100 env_rounding (Some zigzag4) None = Return (SUCCESS, Some d) \<and>
        length d = 16 \<and> cell 4 d 0 0 = 0 \<and> cell 4 d 0 3 \<le> 100 \<and> cell 4 d 3 0 = 100"
    using e(1,2) e1 e2 e3 by (intro exI [of _ e]) simp
  show ?thesis using path3_wf h aw one zigzag4_wf h' aw' two by simp
qed

end
